theory Spec2Isabelle
  imports
    Complex_Main
    "HOL-Library.AList"
    "HOL-Library.Product_Lexorder"
    "HOL-Library.List_Lexorder"
begin

section \<open>Floating-point rounding\<close>

text \<open>
  The tensors of the program hold float32 numbers, and every arithmetic operation on them
  rounds its exact result to the nearest float32, ties to the even significand. A number
  is a real number here, and \<open>fl p emin emax\<close> rounds a real to the nearest number with \<open>p\<close>
  significant bits and an exponent between \<open>emin\<close> and \<open>emax\<close>, subnormal numbers included:
  \<open>f32\<close> is the rounding of float32 and \<open>f64\<close> that of Python's float. Numbers beyond the
  largest finite one are rounded on the grid of the largest exponent; the values \<open>inf\<close>
  and \<open>NaN\<close> that the hardware then produces are not modelled.
\<close>

definition pow2 :: "int \<Rightarrow> real" where
  "pow2 e = (if 0 \<le> e then 2 ^ nat e else 1 / 2 ^ nat (- e))"

text \<open>Rounding to the nearest integer, a tie to the even one.\<close>

definition round_even :: "real \<Rightarrow> int" where
  "round_even y =
     (let f = \<lfloor>y\<rfloor>; d = y - of_int f
      in if d < 1 / 2 then f else if 1 / 2 < d then f + 1 else if even f then f else f + 1)"

text \<open>
  The exponent of a magnitude \<open>a\<close>: the largest \<open>e\<close> from \<open>emax\<close> down to \<open>emin\<close> with
  \<open>2\<^sup>e \<le> a\<close>, and \<open>emin\<close> for the subnormal magnitudes and 0.
\<close>

fun expo_down :: "nat \<Rightarrow> int \<Rightarrow> real \<Rightarrow> int" where
  "expo_down 0 e a = e"
| "expo_down (Suc n) e a = (if pow2 e \<le> a then e else expo_down n (e - 1) a)"

definition expo :: "int \<Rightarrow> int \<Rightarrow> real \<Rightarrow> int" where
  "expo emin emax a = expo_down (nat (emax - emin)) emax a"

definition fl :: "nat \<Rightarrow> int \<Rightarrow> int \<Rightarrow> real \<Rightarrow> real" where
  "fl p emin emax x =
     (let u = pow2 (expo emin emax \<bar>x\<bar> - int p + 1)
      in u * of_int (round_even (x / u)))"

definition f32 :: "real \<Rightarrow> real" where
  "f32 = fl 24 (- 126) 127"

definition f64 :: "real \<Rightarrow> real" where
  "f64 = fl 53 (- 1022) 1023"


section \<open>Tensors, errors and the environment (env.py)\<close>

text \<open>
  Numbers are real numbers: the float32 arithmetic of the tensors is idealised as exact
  arithmetic, so rounding, overflow, NaN and underflow are outside the model.
  A tensor of shape \<open>(batch, city_t, 2)\<close> is a list of instances, an instance a list of
  points, a point a pair of coordinates. A tour tensor of shape \<open>(batch, city_t)\<close> is a list
  of lists of indices; indices are natural numbers (negative indices are outside the model).
\<close>

datatype error = IndexError | ValueError | KeyError | RuntimeError

type_synonym point = "real \<times> real"

record env =
  batch :: nat
  city_t :: nat

text \<open>\<open>xs[i]\<close>: a read outside the tensor or list raises IndexError.\<close>

definition tensor_index :: "'a list \<Rightarrow> nat \<Rightarrow> error + 'a" where
  "tensor_index xs i = (if i < length xs then Inr (xs ! i) else Inl IndexError)"

text \<open>\<open>torch.stack\<close> of a list of equally shaped tensors; an empty list is refused.\<close>

definition torch_stack :: "'a list \<Rightarrow> error + 'a list" where
  "torch_stack xs = (if xs = [] then Inl RuntimeError else Inr xs)"

text \<open>
  \<open>get_2city_distance\<close>: the tensor branch and the list/ndarray branch compute the same
  function of the coordinates; every caller in env.py passes a tensor or an ndarray row, so
  the final \<open>raise TypeError\<close> is not reached from them.
\<close>

definition get_2city_distance :: "point \<Rightarrow> point \<Rightarrow> real" where
  "get_2city_distance n1 n2 =
     (case n1 of (x1, y1) \<Rightarrow> case n2 of (x2, y2) \<Rightarrow>
        sqrt ((x2 - x1)\<^sup>2 + (y2 - y1)\<^sup>2))"

subsection \<open>get_tour_distance and stack_l\<close>

text \<open>The loop \<open>for i in range(self.city_t): l += ...\<close>, with the running sum \<open>l\<close>.\<close>

fun tour_distance_loop ::
  "nat \<Rightarrow> point list \<Rightarrow> nat list \<Rightarrow> nat list \<Rightarrow> real \<Rightarrow> error + real" where
  "tour_distance_loop ct nodes tour [] l = Inr l"
| "tour_distance_loop ct nodes tour (i # is) l =
     (case tensor_index tour i of Inl e \<Rightarrow> Inl e | Inr a \<Rightarrow>
     (case tensor_index nodes a of Inl e \<Rightarrow> Inl e | Inr na \<Rightarrow>
     (case tensor_index tour ((i + 1) mod ct) of Inl e \<Rightarrow> Inl e | Inr b \<Rightarrow>
     (case tensor_index nodes b of Inl e \<Rightarrow> Inl e | Inr nb \<Rightarrow>
        tour_distance_loop ct nodes tour is (l + get_2city_distance na nb)))))"

definition get_tour_distance :: "env \<Rightarrow> point list \<Rightarrow> nat list \<Rightarrow> error + real" where
  "get_tour_distance e nodes tour =
     tour_distance_loop (city_t e) nodes tour [0..<city_t e] 0"

text \<open>The list comprehension of \<open>stack_l\<close> over \<open>range(self.batch)\<close>.\<close>

fun stack_l_items ::
  "env \<Rightarrow> point list list \<Rightarrow> nat list list \<Rightarrow> nat list \<Rightarrow> error + real list" where
  "stack_l_items e inputs tours [] = Inr []"
| "stack_l_items e inputs tours (i # is) =
     (case tensor_index inputs i of Inl err \<Rightarrow> Inl err | Inr nodes \<Rightarrow>
     (case tensor_index tours i of Inl err \<Rightarrow> Inl err | Inr tour \<Rightarrow>
     (case get_tour_distance e nodes tour of Inl err \<Rightarrow> Inl err | Inr l \<Rightarrow>
     (case stack_l_items e inputs tours is of Inl err \<Rightarrow> Inl err | Inr ls \<Rightarrow>
        Inr (l # ls)))))"

definition stack_l :: "env \<Rightarrow> point list list \<Rightarrow> nat list list \<Rightarrow> error + real list" where
  "stack_l e inputs tours =
     (case stack_l_items e inputs tours [0..<batch e] of
        Inl err \<Rightarrow> Inl err
      | Inr ls \<Rightarrow> torch_stack ls)"

subsection \<open>stack_l_fast\<close>

text \<open>
  \<open>torch.gather(inputs, 1, index)\<close> with the index built from \<open>tours\<close>: the index may not
  have more rows than \<open>inputs\<close>, every entry must be a valid city of its instance, and the
  result has the shape of the index.
\<close>

definition gather_row :: "point list \<Rightarrow> nat list \<Rightarrow> error + point list" where
  "gather_row nodes tour =
     (if list_all (\<lambda>t. t < length nodes) tour then Inr (map (\<lambda>t. nodes ! t) tour)
      else Inl RuntimeError)"

fun gather_rows :: "point list list \<Rightarrow> nat list list \<Rightarrow> error + point list list" where
  "gather_rows inputs [] = Inr []"
| "gather_rows [] (tour # tours) = Inl RuntimeError"
| "gather_rows (nodes # inputs) (tour # tours) =
     (case gather_row nodes tour of Inl err \<Rightarrow> Inl err | Inr d \<Rightarrow>
     (case gather_rows inputs tours of Inl err \<Rightarrow> Inl err | Inr ds \<Rightarrow> Inr (d # ds)))"

definition norm2 :: "point \<Rightarrow> real" where
  "norm2 v = (case v of (x, y) \<Rightarrow> sqrt (x\<^sup>2 + y\<^sup>2))"

definition psub :: "point \<Rightarrow> point \<Rightarrow> point" where
  "psub a b = (fst a - fst b, snd a - snd b)"

text \<open>
  One row of the result: the norms of \<open>d[1:] - d[:-1]\<close> summed, plus the norm of
  \<open>d[0] - d[-1]\<close>. The row is not empty here.
\<close>

definition fast_row :: "point list \<Rightarrow> real" where
  "fast_row d =
     sum_list (map (\<lambda>(a, b). norm2 (psub a b)) (zip (tl d) (butlast d)))
       + norm2 (psub (hd d) (last d))"

text \<open>
  \<open>d[:, 0]\<close> raises IndexError when the tours have no column; the list model sees this on
  a gathered row that is empty.
\<close>

definition stack_l_fast :: "point list list \<Rightarrow> nat list list \<Rightarrow> error + real list" where
  "stack_l_fast inputs tours =
     (case gather_rows inputs tours of
        Inl err \<Rightarrow> Inl err
      | Inr ds \<Rightarrow> if list_ex (\<lambda>d. d = []) ds then Inl IndexError else Inr (map fast_row ds))"

subsection \<open>shuffle and back_tours\<close>




text \<open>\<open>xs[i, j]\<close> on a tensor with at least two dimensions.\<close>

definition tensor_index2 :: "'a list list \<Rightarrow> nat \<Rightarrow> nat \<Rightarrow> error + 'a" where
  "tensor_index2 xs i j =
     (case tensor_index xs i of Inl err \<Rightarrow> Inl err | Inr row \<Rightarrow> tensor_index row j)"

text \<open>
  The innermost loop of \<open>back_tours\<close>: scan \<open>k\<close> over \<open>range(self.city_t)\<close> for the first
  canonical point \<open>test_inputs[i, k]\<close> equal to \<open>xy_temp\<close>; \<open>None\<close> when the scan ends
  without a match.
\<close>

fun find_match :: "point \<Rightarrow> point list list \<Rightarrow> nat \<Rightarrow> nat list \<Rightarrow> error + nat option" where
  "find_match xy_temp test_inputs i [] = Inr None"
| "find_match xy_temp test_inputs i (k # ks) =
     (case tensor_index2 test_inputs i k of
        Inl err \<Rightarrow> Inl err
      | Inr p \<Rightarrow> if xy_temp = p then Inr (Some k) else find_match xy_temp test_inputs i ks)"

text \<open>
  The loop over \<open>j\<close>: the state is \<open>pred_tour\<close> and \<open>pred_tours\<close>. A match appends \<open>k\<close> to
  \<open>pred_tour\<close>, and when \<open>pred_tour\<close> then has \<open>city_t\<close> entries it is stacked and appended to
  \<open>pred_tours\<close>.
\<close>

fun back_tours_cities ::
  "env \<Rightarrow> nat list list \<Rightarrow> point list list \<Rightarrow> point list list \<Rightarrow> nat \<Rightarrow> nat list \<Rightarrow>
     nat list \<times> nat list list \<Rightarrow> error + (nat list \<times> nat list list)" where
  "back_tours_cities e tours sh test i [] st = Inr st"
| "back_tours_cities e tours sh test i (j # js) (pred_tour, pred_tours) =
     (case tensor_index2 tours i j of Inl err \<Rightarrow> Inl err | Inr t \<Rightarrow>
     (case tensor_index2 sh i t of Inl err \<Rightarrow> Inl err | Inr xy_temp \<Rightarrow>
     (case find_match xy_temp test i [0..<city_t e] of
        Inl err \<Rightarrow> Inl err
      | Inr None \<Rightarrow> back_tours_cities e tours sh test i js (pred_tour, pred_tours)
      | Inr (Some k) \<Rightarrow>
          (let pred_tour' = pred_tour @ [k] in
           if length pred_tour' = city_t e then
             (case torch_stack pred_tour' of
                Inl err \<Rightarrow> Inl err
              | Inr s \<Rightarrow>
                  back_tours_cities e tours sh test i js (pred_tour', pred_tours @ [s]))
           else back_tours_cities e tours sh test i js (pred_tour', pred_tours)))))"

text \<open>The loop over \<open>i\<close>; each instance starts with an empty \<open>pred_tour\<close>.\<close>

fun back_tours_batch ::
  "env \<Rightarrow> nat list list \<Rightarrow> point list list \<Rightarrow> point list list \<Rightarrow> nat list \<Rightarrow>
     nat list list \<Rightarrow> error + nat list list" where
  "back_tours_batch e tours sh test [] pred_tours = Inr pred_tours"
| "back_tours_batch e tours sh test (i # is) pred_tours =
     (case back_tours_cities e tours sh test i [0..<city_t e] ([], pred_tours) of
        Inl err \<Rightarrow> Inl err
      | Inr (_, pred_tours') \<Rightarrow> back_tours_batch e tours sh test is pred_tours')"

definition back_tours ::
  "env \<Rightarrow> nat list list \<Rightarrow> point list list \<Rightarrow> point list list \<Rightarrow> error + nat list list" where
  "back_tours e pred_shuffle_tours shuffle_inputs test_inputs =
     (case back_tours_batch e pred_shuffle_tours shuffle_inputs test_inputs [0..<batch e] [] of
        Inl err \<Rightarrow> Inl err
      | Inr pred_tours \<Rightarrow> torch_stack pred_tours)"

subsection \<open>get_optimal_tour\<close>

text \<open>
  The distance matrix \<open>all_distances\<close>, one row per point. The rows of \<open>points\<close> are
  ndarray rows, so \<open>get_2city_distance\<close> takes its second branch.
\<close>

definition all_distances :: "point list \<Rightarrow> real list list" where
  "all_distances points = map (\<lambda>x. map (\<lambda>y. get_2city_distance x y) points) points"

text \<open>
  The dictionaries \<open>A\<close> and \<open>B\<close>: keys are pairs of a start node and a frozenset, values
  pairs of a distance and a visit sequence. A dictionary is an association list in
  insertion order; \<open>B[key] = v\<close> is \<^const>\<open>AList.update\<close> and \<open>A[key]\<close> raises KeyError
  on a missing key.
\<close>

type_synonym state = "nat \<times> nat set"
type_synonym table = "(state \<times> (real \<times> nat list)) list"

definition lookup :: "table \<Rightarrow> state \<Rightarrow> error + (real \<times> nat list)" where
  "lookup A key = (case map_of A key of None \<Rightarrow> Inl KeyError | Some v \<Rightarrow> Inr v)"

text \<open>
  Python's \<open>min\<close> of an iterable: the first item is kept and replaced by each later item
  that is smaller; an empty iterable raises ValueError. Tuples and lists compare
  lexicographically, which is the order of \<open>real \<times> nat list\<close> here.
\<close>

fun py_min :: "'a::linorder list \<Rightarrow> error + 'a" where
  "py_min [] = Inl ValueError"
| "py_min (x # xs) = Inr (fold (\<lambda>y m. if y < m then y else m) xs x)"

text \<open>\<open>itertools.combinations(xs, m)\<close>, in the order itertools yields them.\<close>

fun combinations :: "'a list \<Rightarrow> nat \<Rightarrow> 'a list list" where
  "combinations xs 0 = [[]]"
| "combinations [] (Suc m) = []"
| "combinations (x # xs) (Suc m) =
     map (\<lambda>c. x # c) (combinations xs m) @ combinations xs (Suc m)"

text \<open>
  The order in which \<open>for j in S\<close> and \<open>for k in R\<close> run through a frozenset is that of
  CPython's hash table. The model takes it as the parameter \<open>it\<close>, a function that lists
  the elements of a set. For a few integers below 8, as in the instance of the main
  block, CPython's order is ascending, \<^const>\<open>sorted_list_of_set\<close>.

  The generator inside \<open>min\<close> in the recurrence, for the \<open>k\<close> of \<open>R\<close> in the list \<open>ks\<close>.
\<close>

fun candidates ::
  "real list list \<Rightarrow> table \<Rightarrow> nat \<Rightarrow> nat set \<Rightarrow> nat list \<Rightarrow> error + (real \<times> nat list) list" where
  "candidates D A j R [] = Inr []"
| "candidates D A j R (k # ks) =
     (case lookup A (k, R - {k}) of Inl err \<Rightarrow> Inl err | Inr (dst, sq) \<Rightarrow>
     (case candidates D A j R ks of Inl err \<Rightarrow> Inl err | Inr cs \<Rightarrow>
        Inr ((D ! j ! k + dst, j # sq) # cs)))"

text \<open>The loop \<open>for j in S\<close>, over the \<open>j\<close> in the list \<open>js\<close>, updating \<open>B\<close>.\<close>

fun layer_row ::
  "(nat set \<Rightarrow> nat list) \<Rightarrow> real list list \<Rightarrow> table \<Rightarrow> nat set \<Rightarrow> nat list \<Rightarrow> table \<Rightarrow>
     error + table" where
  "layer_row it D A S [] B = Inr B"
| "layer_row it D A S (j # js) B =
     (let R = S - {j} in
      case candidates D A j R (it R) of Inl err \<Rightarrow> Inl err | Inr cs \<Rightarrow>
     (case py_min cs of Inl err \<Rightarrow> Inl err | Inr v \<Rightarrow>
        layer_row it D A S js (AList.update (j, R) v B)))"

text \<open>The loop \<open>for S in (frozenset(C) for C in itertools.combinations(...))\<close>.\<close>

fun layer_sets ::
  "(nat set \<Rightarrow> nat list) \<Rightarrow> real list list \<Rightarrow> table \<Rightarrow> nat list list \<Rightarrow> table \<Rightarrow>
     error + table" where
  "layer_sets it D A [] B = Inr B"
| "layer_sets it D A (C # Cs) B =
     (let S = set C in
      case layer_row it D A S (it S) B of Inl err \<Rightarrow> Inl err | Inr B' \<Rightarrow>
        layer_sets it D A Cs B')"

text \<open>The loop \<open>for m in range(2, cnt)\<close>, over the \<open>m\<close> in the list \<open>ms\<close>.\<close>

fun dp_layers ::
  "(nat set \<Rightarrow> nat list) \<Rightarrow> real list list \<Rightarrow> nat \<Rightarrow> nat list \<Rightarrow> table \<Rightarrow> error + table" where
  "dp_layers it D cnt [] A = Inr A"
| "dp_layers it D cnt (m # ms) A =
     (case layer_sets it D A (combinations [1..<cnt] m) [] of Inl err \<Rightarrow> Inl err | Inr B \<Rightarrow>
        dp_layers it D cnt ms B)"

text \<open>
  \<open>res\<close>, the pair of the optimal distance and the tour, as \<open>get_optimal_tour\<close> computes
  it. Without points \<open>all_distances\<close> is a one-dimensional empty array and the slice
  \<open>all_distances[1:, 0]\<close> raises IndexError. With one point \<open>A\<close> stays empty and the final
  \<open>min\<close> raises ValueError.
\<close>

definition initial_table :: "real list list \<Rightarrow> table" where
  "initial_table D = map (\<lambda>idx. ((idx, {}), (D ! idx ! 0, [idx]))) [1..<length D]"

definition optimal_res :: "(nat set \<Rightarrow> nat list) \<Rightarrow> point list \<Rightarrow> error + (real \<times> nat list)" where
  "optimal_res it points =
     (let D = all_distances points in
      if points = [] then Inl IndexError
      else
        let A = initial_table D; cnt = length D in
        case dp_layers it D cnt [2..<cnt] A of Inl err \<Rightarrow> Inl err | Inr A' \<Rightarrow>
          py_min (map (\<lambda>((node, _), (dst, sq)). (D ! 0 ! node + dst, 0 # sq)) A'))"

text \<open>\<open>get_optimal_tour\<close> returns the tour \<open>res[1]\<close> only.\<close>

definition get_optimal_tour :: "(nat set \<Rightarrow> nat list) \<Rightarrow> point list \<Rightarrow> error + nat list" where
  "get_optimal_tour it nodes =
     (case optimal_res it nodes of Inl err \<Rightarrow> Inl err | Inr res \<Rightarrow> Inr (snd res))"

text \<open>The instance and the configuration of the \<open>__main__\<close> block of env.py.\<close>

definition test_input :: "point list" where
  "test_input = [(0, 0), (1, 0), (4, 0), (0, -3)]"

definition test_env :: env where
  "test_env = \<lparr>batch = 1, city_t = 4\<rparr>"

section \<open>The pointer network decoder (actor.py)\<close>

text \<open>
  Vectors are lists of reals and matrices lists of rows. The tensor operations of
  \<open>forward\<close> act on every instance of the batch independently, so the model decodes one
  instance at a time and \<open>forward\<close> maps over the batch. \<open>nn.Linear\<close>, \<open>nn.Conv1d\<close> with
  kernel size 1 and \<open>nn.LSTM\<close> are written out after their PyTorch definitions.
\<close>

type_synonym vec = "real list"
type_synonym mat = "real list list"

definition dot :: "vec \<Rightarrow> vec \<Rightarrow> real" where
  "dot v w = sum_list (map (\<lambda>(a, b). a * b) (zip v w))"

definition matvec :: "mat \<Rightarrow> vec \<Rightarrow> vec" where
  "matvec W x = map (\<lambda>row. dot row x) W"

definition vadd :: "vec \<Rightarrow> vec \<Rightarrow> vec" where
  "vadd v w = map (\<lambda>(a, b). a + b) (zip v w)"


text \<open>\<open>nn.Linear\<close> with bias, and \<open>nn.Conv1d(_, _, 1, 1)\<close> at one position: \<open>W x + b\<close>.\<close>

record linear =
  weight :: mat
  bias :: vec

definition linear_apply :: "linear \<Rightarrow> vec \<Rightarrow> vec" where
  "linear_apply L x = vadd (matvec (weight L) x) (bias L)"

text \<open>
  One layer of \<open>nn.LSTM\<close>: the four gates \<open>i, f, g, o\<close> are the four blocks of
  \<open>W_ih x + b_ih + W_hh h + b_hh\<close>, each of the hidden size \<open>H\<close>.
\<close>

record lstm =
  weight_ih :: mat
  weight_hh :: mat
  bias_ih :: vec
  bias_hh :: vec




text \<open>
  The selection policies: \<open>Greedy\<close> is \<open>torch.argmax\<close>, which returns the first index of
  a maximal value. \<open>Categorical\<close> is \<open>torch.multinomial(log_p.exp(), 1)\<close>: the weights are
  the float32 values of \<open>exp log_p\<close>, an index of weight zero is never returned, and
  weights that are all zero are refused with a RuntimeError. Which index of positive
  weight is returned is the choice of the random source: the explicit argument \<open>draw\<close>
  selects among them.
\<close>

datatype selecter = Greedy | Categorical





text \<open>
  The parameters and hyperparameters of \<open>PtrNet1\<close>. \<open>__init__\<close> gives them the shapes of
  \<open>params_shaped\<close>, from \<open>cfg.embed\<close> and \<open>cfg.hidden\<close>.
\<close>

record params =
  embed :: nat
  hidden :: nat
  Embedding :: mat
  Encoder :: lstm
  Decoder :: lstm
  Vec :: vec
  Vec2 :: vec
  W_q :: linear
  W_ref :: linear
  W_q2 :: linear
  W_ref2 :: linear
  dec_input :: vec
  clip_logits :: real
  softmax_T :: real
  n_glimpse :: nat
  city_selecter :: selecter





text \<open>The default argument \<open>inf = 1e8\<close> of \<open>glimpse\<close> and \<open>pointer\<close>.\<close>

definition inf_val :: real where
  "inf_val = 100000000"




text \<open>
  \<open>pointer\<close>: as \<open>glimpse\<close> with the second weight set, and with \<open>self.clip_logits\<close>
  multiplied onto the \<open>tanh\<close>; the result is the masked scores.
\<close>

definition pointer :: "params \<Rightarrow> vec \<Rightarrow> vec list \<Rightarrow> real list \<Rightarrow> real list" where
  "pointer P query ref mask_v =
     (let u1 = linear_apply (W_q2 P) query;
          u2 = map (linear_apply (W_ref2 P)) ref;
          u = map (\<lambda>u2i. dot (Vec2 P) (map (\<lambda>x. clip_logits P * tanh x) (vadd u1 u2i))) u2;
          u' = map (\<lambda>(ui, mi). ui - inf_val * mi) (zip u mask_v)
      in u')"












text \<open>
  The pointer scores as the specification words them, for comparison with \<open>pointer\<close>: the
  sum of the projections is scaled by the clip constant before the \<open>tanh\<close>.
\<close>

definition pointer_spec :: "params \<Rightarrow> vec \<Rightarrow> vec list \<Rightarrow> real list \<Rightarrow> real list" where
  "pointer_spec P query ref mask_v =
     (let u1 = linear_apply (W_q2 P) query;
          u2 = map (linear_apply (W_ref2 P)) ref;
          u = map (\<lambda>u2i. dot (Vec2 P) (map (\<lambda>x. tanh (clip_logits P * x)) (vadd u1 u2i))) u2;
          u' = map (\<lambda>(ui, mi). ui - inf_val * mi) (zip u mask_v)
      in u')"

text \<open>
  Two parameter sets of width 1 (\<open>embed = hidden = 1\<close>) used as concrete inputs.
  In \<open>overweight_params\<close> the combination vector \<open>Vec2\<close> of the pointer is \<open>-1e9\<close> and
  the clip constant 10; the encoder passes the first coordinate of a city through its
  cell gate, and all other weights are zero. In \<open>clip_params\<close> the combination vector
  is 1 and the clip constant 2; \<open>sampling_params\<close> is \<open>clip_params\<close> with the
  \<open>Categorical\<close> policy.
\<close>

definition zero_lstm :: lstm where
  "zero_lstm = \<lparr>weight_ih = [[0], [0], [0], [0]], weight_hh = [[0], [0], [0], [0]],
                bias_ih = [0, 0, 0, 0], bias_hh = [0, 0, 0, 0]\<rparr>"

definition zero_linear :: linear where
  "zero_linear = \<lparr>weight = [[0]], bias = [0]\<rparr>"

definition overweight_params :: params where
  "overweight_params =
     \<lparr>embed = 1, hidden = 1,
      Embedding = [[1, 0]],
      Encoder = zero_lstm\<lparr>weight_ih := [[0], [0], [1], [0]]\<rparr>,
      Decoder = zero_lstm,
      Vec = [0], Vec2 = [- 1000000000],
      W_q = zero_linear, W_ref = zero_linear,
      W_q2 = zero_linear, W_ref2 = \<lparr>weight = [[1]], bias = [0]\<rparr>,
      dec_input = [0],
      clip_logits = 10, softmax_T = 1, n_glimpse = 1,
      city_selecter = Greedy\<rparr>"

definition clip_params :: params where
  "clip_params = overweight_params\<lparr>Vec2 := [1], clip_logits := 2\<rparr>"


section \<open>Notions used to state the properties\<close>

definition permutation_of :: "nat \<Rightarrow> nat list \<Rightarrow> bool" where
  "permutation_of n t = (distinct t \<and> set t = {0..<n})"

definition matched :: "nat \<Rightarrow> point list list \<Rightarrow> point list list \<Rightarrow> nat list list \<Rightarrow> nat \<Rightarrow> nat \<Rightarrow> nat" where
  "matched ct test sh tours i j =
     the (find (\<lambda>k. sh ! i ! (tours ! i ! j) = test ! i ! k) [0..<ct])"

text \<open>
  The cyclic length of a tour in closed form: the distance from each of the first \<open>n\<close>
  entries to its cyclic successor, summed.
\<close>

definition cycle_length :: "point list \<Rightarrow> nat list \<Rightarrow> nat \<Rightarrow> real" where
  "cycle_length nodes tour n =
     (\<Sum>i\<leftarrow>[0..<n]. get_2city_distance (nodes ! (tour ! i)) (nodes ! (tour ! ((i + 1) mod n))))"

text \<open>
  An iteration order of frozensets: every finite set is listed with each of its elements
  once.
\<close>

definition iterates :: "(nat set \<Rightarrow> nat list) \<Rightarrow> bool" where
  "iterates it = (\<forall>S. finite S \<longrightarrow> set (it S) = S \<and> distinct (it S))"

text \<open>
  The cost of walking along a list of cities under a distance function, and the cost of a
  visit sequence that afterwards returns to city 0 (the distance component of a table
  entry of the exact solver).
\<close>

fun path_cost :: "(nat \<Rightarrow> nat \<Rightarrow> real) \<Rightarrow> nat list \<Rightarrow> real" where
  "path_cost f [] = 0"
| "path_cost f [x] = 0"
| "path_cost f (x # y # r) = f x y + path_cost f (y # r)"

definition tail_cost :: "real list list \<Rightarrow> nat list \<Rightarrow> real" where
  "tail_cost D p = path_cost (\<lambda>a b. D ! a ! b) (p @ [0])"

text \<open>
  A table entry of the layer with \<open>m\<close> remaining cities, for \<open>n\<close> cities in all: the key
  is a start node \<open>j\<close> and a set \<open>R\<close> of \<open>m\<close> other cities, and the value is a cheapest
  way to go from \<open>j\<close> through all of \<open>R\<close> and back to city 0, with its cost.
\<close>

definition opt_entry ::
  "real list list \<Rightarrow> nat \<Rightarrow> nat \<Rightarrow> state \<times> (real \<times> nat list) \<Rightarrow> bool" where
  "opt_entry D n m x =
     (case x of ((j, R), (c, p)) \<Rightarrow>
        1 \<le> j \<and> j < n \<and> R \<subseteq> {1..<n} - {j} \<and> card R = m
        \<and> hd p = j \<and> p \<noteq> [] \<and> distinct p \<and> set p = insert j R
        \<and> c = tail_cost D p
        \<and> (\<forall>q. distinct q \<and> set q = R \<longrightarrow> c \<le> tail_cost D (j # q)))"

definition layer_ok :: "real list list \<Rightarrow> nat \<Rightarrow> nat \<Rightarrow> table \<Rightarrow> bool" where
  "layer_ok D n m A =
     ((\<forall>x\<in>set A. opt_entry D n m x)
      \<and> (\<forall>j R. 1 \<le> j \<and> j < n \<and> R \<subseteq> {1..<n} - {j} \<and> card R = m
             \<longrightarrow> (j, R) \<in> fst ` set A))"

text \<open>A candidate of the recurrence for the key \<open>(j, R)\<close>: a visit sequence with its cost.\<close>

definition valid_path :: "real list list \<Rightarrow> nat \<Rightarrow> nat set \<Rightarrow> real \<times> nat list \<Rightarrow> bool" where
  "valid_path D j R v = (hd (snd v) = j \<and> snd v \<noteq> [] \<and> distinct (snd v)
      \<and> set (snd v) = insert j R \<and> fst v = tail_cost D (snd v))"



section \<open>Properties of the rounding\<close>

lemma pow2_powr: "pow2 e = 2 powr (real_of_int e)"
proof (cases "0 \<le> e")
  case True
  then show ?thesis by (simp add: pow2_def powr_realpow[symmetric])
next
  case False
  then have "2 powr (real_of_int e) = 2 powr (- real (nat (- e)))" by simp
  also have "\<dots> = 1 / 2 ^ nat (- e)"
    by (simp only: powr_minus powr_realpow[of 2, simplified] inverse_eq_divide)
  finally show ?thesis using False by (simp add: pow2_def)
qed

lemma pow2_pos: "0 < pow2 e" by (simp add: pow2_powr)

lemma pow2_add: "pow2 (a + b) = pow2 a * pow2 b" by (simp add: pow2_powr powr_add)

lemma pow2_mono: "a \<le> b \<Longrightarrow> pow2 a \<le> pow2 b" by (simp add: pow2_powr)


lemma pow2_nat: "pow2 (int n) = 2 ^ n" by (simp add: pow2_def)

lemma pow2_0: "pow2 0 = 1" by (simp add: pow2_def)


lemma expo_down_props:
  "e - int n \<le> expo_down n e a \<and> expo_down n e a \<le> e
   \<and> (e - int n < expo_down n e a \<longrightarrow> pow2 (expo_down n e a) \<le> a)
   \<and> (expo_down n e a < e \<longrightarrow> a < pow2 (expo_down n e a + 1))"
proof (induction n arbitrary: e)
  case 0
  then show ?case by simp
next
  case (Suc n)
  show ?case
  proof (cases "pow2 e \<le> a")
    case True
    then show ?thesis by simp
  next
    case False
    define r where "r = expo_down n (e - 1) a"
    have r: "expo_down (Suc n) e a = r" using False by (simp add: r_def)
    have 1: "e - 1 - int n \<le> r" and 2: "r \<le> e - 1"
      and 3: "e - 1 - int n < r \<longrightarrow> pow2 r \<le> a"
      and 4: "r < e - 1 \<longrightarrow> a < pow2 (r + 1)"
      using Suc[of "e - 1"] unfolding r_def by blast+
    have 5: "a < pow2 (r + 1)"
    proof (cases "r < e - 1")
      case True
      then show ?thesis using 4 by blast
    next
      case False
      then have "r + 1 = e" using 2 by linarith
      then show ?thesis using \<open>\<not> pow2 e \<le> a\<close> by simp
    qed
    show ?thesis unfolding r using 1 2 3 5 by simp
  qed
qed

lemma expo_range:
  assumes "emin \<le> emax"
  shows "emin \<le> expo emin emax a" "expo emin emax a \<le> emax"
  using expo_down_props[of emax "nat (emax - emin)" a] assms by (simp_all add: expo_def)

lemma expo_low:
  assumes "emin \<le> emax" "emin < expo emin emax a"
  shows "pow2 (expo emin emax a) \<le> a"
  using expo_down_props[of emax "nat (emax - emin)" a] assms by (simp add: expo_def)

lemma expo_high:
  assumes "expo emin emax a < emax"
  shows "a < pow2 (expo emin emax a + 1)"
  using expo_down_props[of emax "nat (emax - emin)" a] assms by (simp add: expo_def)

lemma expo_eq:
  assumes "emin \<le> e" "e \<le> emax" "pow2 e \<le> a \<or> e = emin" "a < pow2 (e + 1) \<or> e = emax"
  shows "expo emin emax a = e"
proof -
  define r where "r = expo emin emax a"
  have mm: "emin \<le> emax" using assms(1,2) by simp
  have rr: "emin \<le> r" "r \<le> emax" unfolding r_def using expo_range[OF mm] by simp_all
  have "\<not> r < e"
  proof
    assume l: "r < e"
    then have "r < emax" using assms(2) by simp
    then have "a < pow2 (r + 1)" unfolding r_def by (rule expo_high)
    also have "\<dots> \<le> pow2 e" using l by (intro pow2_mono) simp
    finally have "\<not> pow2 e \<le> a" by simp
    then have "e = emin" using assms(3) by blast
    then show False using rr(1) l by simp
  qed
  moreover have "\<not> e < r"
  proof
    assume l: "e < r"
    then have "emin < r" using assms(1) by simp
    then have "pow2 r \<le> a" unfolding r_def using expo_low[OF mm] by simp
    moreover have "e \<noteq> emax" using l rr(2) by simp
    then have "a < pow2 (e + 1)" using assms(4) by blast
    moreover have "pow2 (e + 1) \<le> pow2 r" using l by (intro pow2_mono) simp
    ultimately show False by simp
  qed
  ultimately show ?thesis unfolding r_def by simp
qed

lemma expo_mono:
  assumes "emin \<le> emax" "a \<le> b"
  shows "expo emin emax a \<le> expo emin emax b"
proof (rule ccontr)
  define ra where "ra = expo emin emax a"
  define rb where "rb = expo emin emax b"
  assume "\<not> expo emin emax a \<le> expo emin emax b"
  then have l: "rb < ra" by (simp add: ra_def rb_def)
  have "emin \<le> rb" "ra \<le> emax" unfolding ra_def rb_def using expo_range[OF assms(1)] by simp_all
  then have "emin < ra" "rb < emax" using l by simp_all
  then have "pow2 ra \<le> a" "b < pow2 (rb + 1)"
    unfolding ra_def rb_def using expo_low[OF assms(1)] expo_high by simp_all
  moreover have "pow2 (rb + 1) \<le> pow2 ra" using l by (intro pow2_mono) simp
  ultimately show False using assms(2) by simp
qed

lemma round_even_int: "round_even (of_int n) = n"
  by (simp add: round_even_def)

lemma round_even_bounds: "\<lfloor>y\<rfloor> \<le> round_even y" "round_even y \<le> \<lfloor>y\<rfloor> + 1"
  by (simp_all add: round_even_def Let_def)

lemma round_even_mono:
  assumes "x \<le> y"
  shows "round_even x \<le> round_even y"
proof (cases "\<lfloor>x\<rfloor> = \<lfloor>y\<rfloor>")
  case True
  then show ?thesis using assms by (auto simp: round_even_def Let_def)
next
  case False
  then have "\<lfloor>x\<rfloor> < \<lfloor>y\<rfloor>" using floor_mono[OF assms] by simp
  then have "round_even x \<le> \<lfloor>y\<rfloor>" using round_even_bounds(2)[of x] by simp
  then show ?thesis using round_even_bounds(1)[of y] by simp
qed



lemma fl_eval:
  assumes "emin \<le> e" "e \<le> emax" "pow2 e \<le> \<bar>x\<bar> \<or> e = emin" "\<bar>x\<bar> < pow2 (e + 1) \<or> e = emax"
  shows "fl p emin emax x
     = pow2 (e - int p + 1) * of_int (round_even (x / pow2 (e - int p + 1)))"
  by (simp add: fl_def Let_def expo_eq[OF assms])

lemma fl_exact:
  assumes "x = of_int m * pow2 k" "\<bar>m\<bar> < 2 ^ p" "emin - int p + 1 \<le> k" "emin \<le> emax"
  shows "fl p emin emax x = x"
proof -
  define e where "e = expo emin emax \<bar>x\<bar>"
  define u where "u = pow2 (e - int p + 1)"
  have up: "0 < u" by (simp add: u_def pow2_pos)
  have ke: "e - int p + 1 \<le> k"
  proof (cases "emin < e")
    case True
    then have "pow2 e \<le> \<bar>x\<bar>" unfolding e_def using expo_low[OF assms(4)] by simp
    also have "\<bar>x\<bar> = real_of_int \<bar>m\<bar> * pow2 k"
      unfolding assms(1) using pow2_pos[of k] by (simp add: abs_mult)
    also have "\<dots> < 2 ^ p * pow2 k"
    proof -
      have "real_of_int \<bar>m\<bar> < real_of_int (2 ^ p)" using assms(2) by (simp only: of_int_less_iff)
      then show ?thesis using pow2_pos[of k] by simp
    qed
    also have "\<dots> = pow2 (int p + k)" by (simp add: pow2_add pow2_nat)
    finally have "pow2 e < pow2 (int p + k)" .
    then have "e < int p + k" by (simp add: pow2_powr)
    then show ?thesis by simp
  next
    case False
    then have "e = emin" using expo_range(1)[OF assms(4), of "\<bar>x\<bar>"] by (simp add: e_def)
    then show ?thesis using assms(3) by simp
  qed
  define d where "d = nat (k - (e - int p + 1))"
  have "pow2 k = pow2 (int d + (e - int p + 1))" using ke by (simp add: d_def)
  also have "\<dots> = 2 ^ d * u" by (simp add: pow2_add pow2_nat u_def)
  finally have "x / u = of_int (m * 2 ^ d)" unfolding assms(1) using up by simp
  then have "round_even (x / u) = m * 2 ^ d" by (simp only: round_even_int)
  then have "u * of_int (round_even (x / u)) = x"
    using \<open>x / u = of_int (m * 2 ^ d)\<close> up by (simp add: field_simps)
  then show ?thesis by (simp add: fl_def Let_def e_def[symmetric] u_def[symmetric])
qed

lemma fl_nonneg:
  assumes "0 \<le> x"
  shows "0 \<le> fl p emin emax x"
proof -
  define u where "u = pow2 (expo emin emax \<bar>x\<bar> - int p + 1)"
  have up: "0 < u" by (simp add: u_def pow2_pos)
  then have "0 \<le> x / u" using assms by simp
  then have "round_even 0 \<le> round_even (x / u)" by (rule round_even_mono)
  then have "0 \<le> round_even (x / u)" using round_even_int[of 0] by simp
  then show ?thesis using up by (simp add: fl_def Let_def u_def[symmetric])
qed

lemma fl_mono:
  assumes "0 \<le> x" "x \<le> y" "emin \<le> emax" "0 < p"
  shows "fl p emin emax x \<le> fl p emin emax y"
proof -
  define ex where "ex = expo emin emax \<bar>x\<bar>"
  define ey where "ey = expo emin emax \<bar>y\<bar>"
  define ux where "ux = pow2 (ex - int p + 1)"
  define uy where "uy = pow2 (ey - int p + 1)"
  have fx: "fl p emin emax x = ux * of_int (round_even (x / ux))"
    by (simp add: fl_def Let_def ex_def ux_def)
  have fy: "fl p emin emax y = uy * of_int (round_even (y / uy))"
    by (simp add: fl_def Let_def ey_def uy_def)
  have up: "0 < ux" "0 < uy" by (simp_all add: ux_def uy_def pow2_pos)
  have le: "ex \<le> ey" unfolding ex_def ey_def using assms(1,2) by (intro expo_mono[OF assms(3)]) simp
  show ?thesis
  proof (cases "ex = ey")
    case True
    then have u: "ux = uy" by (simp add: ux_def uy_def)
    have "x / uy \<le> y / uy" using assms(2) up(2) by (simp add: divide_right_mono)
    then have "round_even (x / uy) \<le> round_even (y / uy)" by (rule round_even_mono)
    then show ?thesis unfolding fx fy u using up(2) by simp
  next
    case False
    then have lt: "ex < ey" using le by simp
    have rng: "emin \<le> ex" "ey \<le> emax"
      unfolding ex_def ey_def using expo_range[OF assms(3)] by simp_all
    have "ex < emax" using lt rng by simp
    then have xh: "x < pow2 (ex + 1)" using expo_high[of emin emax "\<bar>x\<bar>"] assms(1) by (simp add: ex_def)
    have "emin < ey" using lt rng by simp
    then have yl: "pow2 ey \<le> y"
      using expo_low[OF assms(3), of "\<bar>y\<bar>"] assms(1,2) by (simp add: ey_def)
    have px: "pow2 (ex + 1) = of_int (2 ^ p) * ux"
    proof -
      have "pow2 (ex + 1) = pow2 (int p + (ex - int p + 1))" by simp
      then show ?thesis unfolding ux_def by (simp only: pow2_add pow2_nat) simp
    qed
    have py: "pow2 ey = of_int (2 ^ (p - 1)) * uy"
    proof -
      have "pow2 ey = pow2 (int (p - 1) + (ey - int p + 1))" using assms(4) by (simp add: of_nat_diff)
      then show ?thesis unfolding uy_def by (simp only: pow2_add pow2_nat) simp
    qed
    have "x / ux \<le> of_int (2 ^ p)" using xh up(1) unfolding px by (simp add: field_simps)
    then have "round_even (x / ux) \<le> round_even (of_int (2 ^ p))" by (rule round_even_mono)
    then have "round_even (x / ux) \<le> 2 ^ p" by (simp only: round_even_int)
    then have "real_of_int (round_even (x / ux)) \<le> real_of_int (2 ^ p)" by (simp only: of_int_le_iff)
    then have a: "fl p emin emax x \<le> pow2 (ex + 1)" unfolding fx px using up(1) by (simp add: mult.commute)
    have "of_int (2 ^ (p - 1)) \<le> y / uy" using yl up(2) unfolding py by (simp add: field_simps)
    then have "round_even (of_int (2 ^ (p - 1))) \<le> round_even (y / uy)" by (rule round_even_mono)
    then have "2 ^ (p - 1) \<le> round_even (y / uy)" by (simp only: round_even_int)
    then have "real_of_int (2 ^ (p - 1)) \<le> real_of_int (round_even (y / uy))" by (simp only: of_int_le_iff)
    then have b: "pow2 ey \<le> fl p emin emax y" unfolding fy py using up(2) by (simp add: mult.commute)
    have "pow2 (ex + 1) \<le> pow2 ey" using lt by (intro pow2_mono) simp
    then show ?thesis using a b by simp
  qed
qed



lemma f32_round:
  assumes "- 126 \<le> e" "e \<le> 127" "pow2 e \<le> \<bar>x\<bar>" "\<bar>x\<bar> < pow2 (e + 1)"
    and "round_even (x / pow2 (e - 23)) = n"
  shows "f32 x = of_int n * pow2 (e - 23)"
proof -
  have "f32 x = pow2 (e - int 24 + 1) * of_int (round_even (x / pow2 (e - int 24 + 1)))"
    unfolding f32_def using assms(1-4) by (intro fl_eval) simp_all
  then show ?thesis using assms(5) by simp
qed

section \<open>Properties of the environment\<close>

subsection \<open>back_tours and shuffle\<close>

lemma tensor_index_Inr: "i < length xs \<Longrightarrow> tensor_index xs i = Inr (xs ! i)"
  by (simp add: tensor_index_def)

lemma tensor_index_Inl: "\<not> i < length xs \<Longrightarrow> tensor_index xs i = Inl IndexError"
  by (simp add: tensor_index_def)

lemma tensor_index2_Inr:
  "i < length xs \<Longrightarrow> j < length (xs ! i) \<Longrightarrow> tensor_index2 xs i j = Inr (xs ! i ! j)"
  by (simp add: tensor_index2_def tensor_index_def)

lemma find_match_find:
  assumes "i < length test" "\<forall>k\<in>set ks. k < length (test ! i)"
  shows "find_match xy test i ks = Inr (find (\<lambda>k. xy = test ! i ! k) ks)"
  using assms by (induction ks) (auto simp: tensor_index2_Inr)

lemma find_upt_first:
  assumes "find P [0..<n] = Some k"
  shows "k < n \<and> P k \<and> (\<forall>k'<k. \<not> P k')"
proof -
  from assms obtain idx where idx: "idx < length [0..<n]" "P ([0..<n] ! idx)"
    "k = [0..<n] ! idx" "\<forall>j<idx. \<not> P ([0..<n] ! j)"
    by (auto simp: find_Some_iff)
  then show ?thesis by auto
qed

lemma find_upt_exists:
  assumes "xy \<in> set (take n row)"
  shows "\<exists>k. find (\<lambda>k. xy = row ! k) [0..<n] = Some k"
proof -
  from assms obtain m where "m < length (take n row)" "take n row ! m = xy"
    by (auto simp: in_set_conv_nth)
  then have "m < n" "xy = row ! m" by auto
  then have "find (\<lambda>k. xy = row ! k) [0..<n] \<noteq> None"
    by (auto simp: find_None_iff)
  then show ?thesis by auto
qed

lemma back_tours_cities_ok:
  assumes "i < length tours" "i < length sh" "i < length test"
    and "city_t e \<le> length (test ! i)"
    and "\<forall>j\<in>set js. j < length (tours ! i) \<and> tours ! i ! j < length (sh ! i)
            \<and> sh ! i ! (tours ! i ! j) \<in> set (take (city_t e) (test ! i))"
    and "length pt + length js = city_t e" "js \<noteq> []"
  shows "back_tours_cities e tours sh test i js (pt, pts) =
           Inr (pt @ map (matched (city_t e) test sh tours i) js,
                pts @ [pt @ map (matched (city_t e) test sh tours i) js])"
  using assms(5-7)
proof (induction js arbitrary: pt)
  case Nil
  then show ?case by simp
next
  case (Cons j js)
  let ?xy = "sh ! i ! (tours ! i ! j)"
  have t: "tensor_index2 tours i j = Inr (tours ! i ! j)"
    using Cons.prems assms(1) by (simp add: tensor_index2_Inr)
  have s: "tensor_index2 sh i (tours ! i ! j) = Inr ?xy"
    using Cons.prems assms(2) by (simp add: tensor_index2_Inr)
  have fm: "find_match ?xy test i [0..<city_t e] = Inr (find (\<lambda>k. ?xy = test ! i ! k) [0..<city_t e])"
    using assms(3,4) by (intro find_match_find) auto
  obtain k where k: "find (\<lambda>k. ?xy = test ! i ! k) [0..<city_t e] = Some k"
    using find_upt_exists[of ?xy "city_t e" "test ! i"] Cons.prems by auto
  have mk: "matched (city_t e) test sh tours i j = k"
    by (simp add: matched_def k)
  show ?case
  proof (cases "js = []")
    case True
    then have "length (pt @ [k]) = city_t e" using Cons.prems by simp
    then show ?thesis
      using True by (simp add: t s fm k mk torch_stack_def Let_def)
  next
    case False
    then have ne: "length (pt @ [k]) \<noteq> city_t e" using Cons.prems(2) by (cases js) auto
    have "back_tours_cities e tours sh test i (j # js) (pt, pts) =
            back_tours_cities e tours sh test i js (pt @ [k], pts)"
      using ne by (simp add: t s fm k Let_def)
    also have "\<dots> = Inr ((pt @ [k]) @ map (matched (city_t e) test sh tours i) js,
                pts @ [(pt @ [k]) @ map (matched (city_t e) test sh tours i) js])"
      using Cons.prems False by (intro Cons.IH) auto
    finally show ?thesis by (simp add: mk)
  qed
qed

lemma back_tours_batch_ok:
  assumes "\<forall>i\<in>set is. i < length tours \<and> i < length sh \<and> i < length test
            \<and> city_t e \<le> length (test ! i)
            \<and> (\<forall>j<city_t e. j < length (tours ! i) \<and> tours ! i ! j < length (sh ! i)
                  \<and> sh ! i ! (tours ! i ! j) \<in> set (take (city_t e) (test ! i)))"
    and "0 < city_t e"
  shows "back_tours_batch e tours sh test is pts =
           Inr (pts @ map (\<lambda>i. map (matched (city_t e) test sh tours i) [0..<city_t e]) is)"
  using assms(1)
proof (induction "is" arbitrary: pts)
  case Nil
  then show ?case by simp
next
  case (Cons i "is")
  have "back_tours_cities e tours sh test i [0..<city_t e] ([], pts) =
          Inr ([] @ map (matched (city_t e) test sh tours i) [0..<city_t e],
               pts @ [[] @ map (matched (city_t e) test sh tours i) [0..<city_t e]])"
    using Cons.prems assms(2) by (intro back_tours_cities_ok) auto
  then show ?case using Cons by simp
qed

lemma back_tours_ok:
  assumes "0 < batch e" "0 < city_t e"
    and "\<forall>i<batch e. i < length tours \<and> i < length sh \<and> i < length test
            \<and> city_t e \<le> length (test ! i)
            \<and> (\<forall>j<city_t e. j < length (tours ! i) \<and> tours ! i ! j < length (sh ! i)
                  \<and> sh ! i ! (tours ! i ! j) \<in> set (take (city_t e) (test ! i)))"
  shows "back_tours e tours sh test =
           Inr (map (\<lambda>i. map (matched (city_t e) test sh tours i) [0..<city_t e]) [0..<batch e])"
proof -
  have "back_tours_batch e tours sh test [0..<batch e] [] =
          Inr ([] @ map (\<lambda>i. map (matched (city_t e) test sh tours i) [0..<city_t e]) [0..<batch e])"
    using assms by (intro back_tours_batch_ok) auto
  then show ?thesis using assms(1) by (simp add: back_tours_def torch_stack_def)
qed

lemma matched_props:
  assumes "sh ! i ! (tours ! i ! j) \<in> set (take ct (test ! i))"
  shows "matched ct test sh tours i j < ct"
    and "test ! i ! matched ct test sh tours i j = sh ! i ! (tours ! i ! j)"
    and "\<forall>k<matched ct test sh tours i j. test ! i ! k \<noteq> sh ! i ! (tours ! i ! j)"
proof -
  let ?xy = "sh ! i ! (tours ! i ! j)"
  obtain k where k: "find (\<lambda>k. ?xy = test ! i ! k) [0..<ct] = Some k"
    using find_upt_exists[OF assms] by auto
  have mk: "matched ct test sh tours i j = k" by (simp add: matched_def k)
  from find_upt_first[OF k] show "matched ct test sh tours i j < ct"
    and "test ! i ! matched ct test sh tours i j = sh ! i ! (tours ! i ! j)"
    and "\<forall>k<matched ct test sh tours i j. test ! i ! k \<noteq> sh ! i ! (tours ! i ! j)"
    unfolding mk by auto
qed



lemma permutation_of_length: "permutation_of n t \<Longrightarrow> length t = n"
  unfolding permutation_of_def using distinct_card by fastforce

lemma permutation_of_nth: "permutation_of n t \<Longrightarrow> i < n \<Longrightarrow> t ! i < n"
  using permutation_of_length[of n t] unfolding permutation_of_def
  by (metis atLeastLessThan_iff nth_mem)



text \<open>
  C6 (as amended). \<open>back_tours\<close> has no check for an ambiguous match. When every point
  looked up through the shuffled tour occurs in the canonical instance, it returns a result,
  and each returned index is the first (lowest) canonical index whose coordinates equal the
  looked-up point; with duplicate coordinates this is the first of the duplicates.
\<close>

theorem back_tours_first_match:
  assumes "0 < batch e" "0 < city_t e"
    and "length test = batch e" "length sh = batch e" "length tours = batch e"
    and "\<forall>i<batch e. length (test ! i) = city_t e \<and> length (sh ! i) = city_t e
            \<and> length (tours ! i) = city_t e"
    and "\<forall>i<batch e. \<forall>j<city_t e. tours ! i ! j < city_t e
            \<and> sh ! i ! (tours ! i ! j) \<in> set (test ! i)"
  shows "\<exists>res. back_tours e tours sh test = Inr res \<and> length res = batch e
           \<and> (\<forall>i<batch e. length (res ! i) = city_t e
                 \<and> (\<forall>j<city_t e. res ! i ! j < city_t e
                       \<and> test ! i ! (res ! i ! j) = sh ! i ! (tours ! i ! j)
                       \<and> (\<forall>k<res ! i ! j. test ! i ! k \<noteq> sh ! i ! (tours ! i ! j))))"
proof -
  let ?ct = "city_t e"
  have mem: "sh ! i ! (tours ! i ! j) \<in> set (take ?ct (test ! i))"
    if "i < batch e" "j < ?ct" for i j
    using that assms(6,7) by simp
  define res where "res = map (\<lambda>i. map (matched ?ct test sh tours i) [0..<?ct]) [0..<batch e]"
  have len: "length res = batch e" by (simp add: res_def)
  have rows: "length (res ! i) = ?ct" if "i < batch e" for i using that by (simp add: res_def)
  have entry: "res ! i ! j = matched ?ct test sh tours i j" if "i < batch e" "j < ?ct" for i j
    using that by (simp add: res_def)
  have bt: "back_tours e tours sh test = Inr res"
    unfolding res_def
  proof (intro back_tours_ok assms(1,2) allI impI)
    fix i assume i: "i < batch e"
    show "i < length tours \<and> i < length sh \<and> i < length test \<and>
         ?ct \<le> length (test ! i) \<and>
         (\<forall>j<?ct. j < length (tours ! i) \<and> tours ! i ! j < length (sh ! i) \<and>
              sh ! i ! (tours ! i ! j) \<in> set (take ?ct (test ! i)))"
      using i assms(3-7) mem by simp
  qed
  have res_ok: "res ! i ! j < ?ct \<and> test ! i ! (res ! i ! j) = sh ! i ! (tours ! i ! j)
            \<and> (\<forall>k<res ! i ! j. test ! i ! k \<noteq> sh ! i ! (tours ! i ! j))"
    if "i < batch e" "j < ?ct" for i j
    using matched_props[OF mem[OF that]] entry[OF that] by simp
  show ?thesis using bt len rows res_ok by blast
qed

theorem back_tours_first_match_witness:
  "\<exists>res. back_tours \<lparr>batch = 1, city_t = 3\<rparr> [[2, 1, 0]]
             [[(0, 0), (0, 0), (1, 1)]] [[(0, 0), (0, 0), (1, 1)]] = Inr res
     \<and> length res = 1 \<and> length (res ! 0) = 3
     \<and> res ! 0 ! 0 = 2 \<and> res ! 0 ! 1 = 0 \<and> res ! 0 ! 2 = 0"
proof -
  define e where "e = \<lparr>batch = 1, city_t = 3\<rparr>"
  define test :: "point list list" where "test = [[(0, 0), (0, 0), (1, 1)]]"
  define tours :: "nat list list" where "tours = [[2, 1, 0]]"
  have b: "batch e = 1" and c: "city_t e = 3" by (simp_all add: e_def)
  have h1: "0 < batch e" and h2: "0 < city_t e" by (simp_all add: b c)
  have h3: "length test = batch e" and h4: "length tours = batch e"
    by (simp_all add: b test_def tours_def)
  have h6: "\<forall>i<batch e. length (test ! i) = city_t e \<and> length (test ! i) = city_t e
            \<and> length (tours ! i) = city_t e"
    by (simp add: b c test_def tours_def)
  have h7: "\<forall>i<batch e. \<forall>j<city_t e. tours ! i ! j < city_t e
            \<and> test ! i ! (tours ! i ! j) \<in> set (test ! i)"
    by (simp add: b c test_def tours_def less_Suc_eq numeral_3_eq_3 all_conj_distrib)
  from back_tours_first_match[OF h1 h2 h3 h3 h4 h6 h7]
  obtain res where r: "back_tours e tours test test = Inr res" "length res = batch e"
    and p: "\<forall>i<batch e. length (res ! i) = city_t e
                 \<and> (\<forall>j<city_t e. res ! i ! j < city_t e
                       \<and> test ! i ! (res ! i ! j) = test ! i ! (tours ! i ! j)
                       \<and> (\<forall>k<res ! i ! j. test ! i ! k \<noteq> test ! i ! (tours ! i ! j)))"
    by blast
  have p0: "length (res ! 0) = 3" using p b c by simp
  have pj: "res ! 0 ! j < 3 \<and> test ! 0 ! (res ! 0 ! j) = test ! 0 ! (tours ! 0 ! j)
                       \<and> (\<forall>k<res ! 0 ! j. test ! 0 ! k \<noteq> test ! 0 ! (tours ! 0 ! j))"
    if "j < 3" for j using p b c that by simp
  have r0: "res ! 0 ! 0 = 2"
    using pj[of 0] by (auto simp: test_def tours_def less_Suc_eq numeral_3_eq_3)
  have r1: "res ! 0 ! 1 = 0"
    using pj[of 1] by (auto simp: test_def tours_def less_Suc_eq numeral_3_eq_3)
  have r2: "res ! 0 ! 2 = 0"
    using pj[of 2] by (auto simp: test_def tours_def less_Suc_eq numeral_3_eq_3)
  show ?thesis using r p0 r0 r1 r2 b unfolding e_def test_def tours_def by auto
qed

text \<open>
  The instance \<open>[(0,0), (0,0), (1,1)]\<close> with the tour \<open>[0, 1, 2]\<close>: no error is raised, and
  the second city is mapped to index 0.
\<close>

theorem back_tours_duplicates_counterexample:
  "back_tours \<lparr>batch = 1, city_t = 3\<rparr> [[0, 1, 2]]
     [[(0, 0), (0, 0), (1, 1)]] [[(0, 0), (0, 0), (1, 1)]] = Inr [[0, 0, 2]]"
  by code_simp

subsection \<open>stack_l and stack_l_fast\<close>

lemma tour_distance_loop_ok:
  assumes "\<forall>i\<in>set is. i < length tour \<and> (i + 1) mod ct < length tour
             \<and> tour ! i < length nodes \<and> tour ! ((i + 1) mod ct) < length nodes"
  shows "tour_distance_loop ct nodes tour is l =
           Inr (l + (\<Sum>i\<leftarrow>is. get_2city_distance (nodes ! (tour ! i))
                                  (nodes ! (tour ! ((i + 1) mod ct)))))"
  using assms by (induction "is" arbitrary: l) (simp_all add: tensor_index_Inr add.assoc)

lemma get_tour_distance_ok:
  assumes "city_t e \<le> length tour" "\<forall>i<city_t e. tour ! i < length nodes"
  shows "get_tour_distance e nodes tour = Inr (cycle_length nodes tour (city_t e))"
proof -
  have "\<forall>i\<in>set [0..<city_t e]. i < length tour \<and> (i + 1) mod city_t e < length tour
             \<and> tour ! i < length nodes \<and> tour ! ((i + 1) mod city_t e) < length nodes"
  proof
    fix i assume "i \<in> set [0..<city_t e]"
    then have i: "i < city_t e" by simp
    then have m: "(i + 1) mod city_t e < city_t e" by simp
    show "i < length tour \<and> (i + 1) mod city_t e < length tour
             \<and> tour ! i < length nodes \<and> tour ! ((i + 1) mod city_t e) < length nodes"
      using i m assms by (metis less_le_trans)
  qed
  from tour_distance_loop_ok[OF this] show ?thesis
    by (simp add: get_tour_distance_def cycle_length_def)
qed

lemma tour_distance_loop_err:
  "tour_distance_loop ct nodes tour is l = Inl err \<Longrightarrow> err = IndexError"
  by (induction "is" arbitrary: l) (auto simp: tensor_index_def split: if_splits)

lemma stack_l_items_ok:
  assumes "\<forall>i\<in>set is. i < length inputs \<and> i < length tours \<and> city_t e \<le> length (tours ! i)
             \<and> (\<forall>j<city_t e. tours ! i ! j < length (inputs ! i))"
  shows "stack_l_items e inputs tours is =
           Inr (map (\<lambda>i. cycle_length (inputs ! i) (tours ! i) (city_t e)) is)"
  using assms by (induction "is") (simp_all add: tensor_index_Inr get_tour_distance_ok)

lemma stack_l_items_err:
  "stack_l_items e inputs tours is = Inl err \<Longrightarrow> err = IndexError"
proof (induction "is")
  case Nil
  then show ?case by simp
next
  case (Cons i "is")
  then show ?case
    by (auto simp: tensor_index_def get_tour_distance_def split: if_splits sum.splits
             dest: tour_distance_loop_err)
qed

lemma stack_l_items_length:
  "stack_l_items e inputs tours is = Inr ls \<Longrightarrow> length ls = length is"
  by (induction "is" arbitrary: ls) (auto split: sum.splits)

lemma stack_l_items_short:
  assumes "\<exists>i\<in>set is. \<not> i < length inputs \<or> \<not> i < length tours"
  shows "stack_l_items e inputs tours is = Inl IndexError"
  using assms
proof (induction "is")
  case Nil
  then show ?case by simp
next
  case (Cons i "is")
  show ?case
  proof (cases "stack_l_items e inputs tours (i # is)")
    case (Inl err)
    then show ?thesis using stack_l_items_err by metis
  next
    case (Inr ls)
    then have a: "i < length inputs" "i < length tours"
      by (auto simp: tensor_index_def split: if_splits)
    then have "\<exists>i\<in>set is. \<not> i < length inputs \<or> \<not> i < length tours"
      using Cons.prems by auto
    then have "stack_l_items e inputs tours is = Inl IndexError" by (rule Cons.IH)
    then show ?thesis using Inr a by (auto simp: tensor_index_def split: sum.splits)
  qed
qed

lemma tensor_index_take: "i < n \<Longrightarrow> tensor_index (take n xs) i = tensor_index xs i"
  by (simp add: tensor_index_def)

lemma tensor_index2_take: "i < n \<Longrightarrow> tensor_index2 (take n xs) i j = tensor_index2 xs i j"
  by (simp add: tensor_index2_def tensor_index_take)

lemma stack_l_items_take:
  assumes "\<forall>i\<in>set is. i < n"
  shows "stack_l_items e (take n inputs) (take n tours) is = stack_l_items e inputs tours is"
  using assms by (induction "is") (simp_all add: tensor_index_take cong: sum.case_cong)

lemma stack_l_take:
  "stack_l e (take (batch e) inputs) (take (batch e) tours) = stack_l e inputs tours"
  by (simp add: stack_l_def stack_l_items_take)

lemma stack_l_length: "stack_l e inputs tours = Inr ls \<Longrightarrow> length ls = batch e"
  by (auto simp: stack_l_def torch_stack_def split: sum.splits if_splits
           dest: stack_l_items_length)

lemma stack_l_short:
  assumes "length inputs < batch e \<or> length tours < batch e"
  shows "stack_l e inputs tours = Inl IndexError"
proof -
  have "\<exists>i\<in>set [0..<batch e]. \<not> i < length inputs \<or> \<not> i < length tours"
    using assms by (cases "length inputs < batch e") auto
  from stack_l_items_short[OF this] show ?thesis by (simp add: stack_l_def)
qed

lemma stack_l_ok:
  assumes "0 < batch e"
    and "\<forall>i<batch e. i < length inputs \<and> i < length tours \<and> city_t e \<le> length (tours ! i)
             \<and> (\<forall>j<city_t e. tours ! i ! j < length (inputs ! i))"
  shows "stack_l e inputs tours =
           Inr (map (\<lambda>i. cycle_length (inputs ! i) (tours ! i) (city_t e)) [0..<batch e])"
proof -
  have "stack_l_items e inputs tours [0..<batch e] =
           Inr (map (\<lambda>i. cycle_length (inputs ! i) (tours ! i) (city_t e)) [0..<batch e])"
    using assms(2) by (intro stack_l_items_ok) auto
  then show ?thesis using assms(1) by (simp add: stack_l_def torch_stack_def)
qed

lemma gather_rows_length: "gather_rows inputs tours = Inr ds \<Longrightarrow> length ds = length tours"
  by (induction inputs tours arbitrary: ds rule: gather_rows.induct) (auto split: sum.splits)

lemma stack_l_fast_length: "stack_l_fast inputs tours = Inr fs \<Longrightarrow> length fs = length tours"
  by (auto simp: stack_l_fast_def split: sum.splits if_splits dest: gather_rows_length)

lemma gather_rows_ok:
  assumes "length tours \<le> length inputs"
    and "\<forall>i<length tours. \<forall>t\<in>set (tours ! i). t < length (inputs ! i)"
  shows "gather_rows inputs tours =
           Inr (map (\<lambda>i. map (\<lambda>t. inputs ! i ! t) (tours ! i)) [0..<length tours])"
  using assms
proof (induction inputs tours rule: gather_rows.induct)
  case (1 inputs)
  then show ?case by simp
next
  case (2 tour tours)
  then show ?case by simp
next
  case (3 nodes inputs tour tours)
  have a: "\<forall>t\<in>set tour. t < length nodes" using "3.prems"(2) by force
  have b: "\<forall>i<length tours. \<forall>t\<in>set (tours ! i). t < length (inputs ! i)"
    using "3.prems"(2) by force
  have g: "gather_row nodes tour = Inr (map (\<lambda>t. nodes ! t) tour)"
    using a by (simp add: gather_row_def list_all_iff)
  have "gather_rows inputs tours =
           Inr (map (\<lambda>i. map (\<lambda>t. inputs ! i ! t) (tours ! i)) [0..<length tours])"
    using "3.prems"(1) b by (intro "3.IH"[OF g]) auto
  moreover have "map (\<lambda>i. map (\<lambda>t. (nodes # inputs) ! i ! t) ((tour # tours) ! i)) [0..<length (tour # tours)]
     = map (\<lambda>t. nodes ! t) tour # map (\<lambda>i. map (\<lambda>t. inputs ! i ! t) (tours ! i)) [0..<length tours]"
    by (simp add: map_upt_Suc del: upt_Suc)
  ultimately show ?case using g by (simp del: upt_Suc)
qed

lemma norm2_psub: "norm2 (psub b a) = get_2city_distance a b"
  by (cases a, cases b) (simp add: norm2_def psub_def get_2city_distance_def)

lemma get_2city_distance_sym: "get_2city_distance a b = get_2city_distance b a"
  by (cases a, cases b) (simp add: get_2city_distance_def power2_commute)

lemma zip_tl_butlast:
  "zip (tl d) (butlast d) = map (\<lambda>i. (d ! Suc i, d ! i)) [0..<length d - 1]"
  by (rule nth_equalityI) (simp_all add: nth_tl nth_butlast)

lemma fast_row_cycle:
  assumes "tour \<noteq> []" "\<forall>t\<in>set tour. t < length nodes"
  shows "fast_row (map (\<lambda>t. nodes ! t) tour) = cycle_length nodes tour (length tour)"
proof -
  define n where "n = length tour - 1"
  have len: "length tour = Suc n" using assms(1) by (cases tour) (simp_all add: n_def)
  define d where "d = map (\<lambda>t. nodes ! t) tour"
  have dn: "d ! i = nodes ! (tour ! i)" if "i < Suc n" for i using that len by (simp add: d_def)
  have hd: "hd d = nodes ! (tour ! 0)" using assms(1) by (cases tour) (simp_all add: d_def)
  have la: "last d = nodes ! (tour ! n)" using len assms(1) by (simp add: d_def last_conv_nth)
  have "sum_list (map (\<lambda>(a, b). norm2 (psub a b)) (zip (tl d) (butlast d)))
      = (\<Sum>i\<leftarrow>[0..<n]. get_2city_distance (d ! i) (d ! Suc i))"
    by (simp add: zip_tl_butlast d_def len norm2_psub comp_def)
  also have "\<dots> = (\<Sum>i\<leftarrow>[0..<n]. get_2city_distance (nodes ! (tour ! i)) (nodes ! (tour ! ((i + 1) mod Suc n))))"
    by (rule arg_cong[where f = sum_list], rule map_cong) (simp_all add: dn)
  finally have a: "sum_list (map (\<lambda>(a, b). norm2 (psub a b)) (zip (tl d) (butlast d)))
      = (\<Sum>i\<leftarrow>[0..<n]. get_2city_distance (nodes ! (tour ! i)) (nodes ! (tour ! ((i + 1) mod Suc n))))" .
  have b: "norm2 (psub (hd d) (last d)) =
            get_2city_distance (nodes ! (tour ! n)) (nodes ! (tour ! ((n + 1) mod Suc n)))"
    by (simp add: hd la norm2_psub)
  have "fast_row d = (\<Sum>i\<leftarrow>[0..<Suc n]. get_2city_distance (nodes ! (tour ! i))
                          (nodes ! (tour ! ((i + 1) mod Suc n))))"
    unfolding fast_row_def a b by simp
  then show ?thesis by (simp add: cycle_length_def len d_def)
qed

lemma stack_l_fast_ok:
  assumes "length tours \<le> length inputs"
    and "\<forall>i<length tours. tours ! i \<noteq> [] \<and> (\<forall>t\<in>set (tours ! i). t < length (inputs ! i))"
  shows "stack_l_fast inputs tours =
           Inr (map (\<lambda>i. cycle_length (inputs ! i) (tours ! i) (length (tours ! i)))
                  [0..<length tours])"
proof -
  have g: "gather_rows inputs tours =
           Inr (map (\<lambda>i. map (\<lambda>t. inputs ! i ! t) (tours ! i)) [0..<length tours])"
    using assms by (intro gather_rows_ok) auto
  have ne: "\<not> list_ex (\<lambda>d. d = [])
             (map (\<lambda>i. map (\<lambda>t. inputs ! i ! t) (tours ! i)) [0..<length tours])"
    using assms(2) by (auto simp: list_ex_iff)
  have "map fast_row (map (\<lambda>i. map (\<lambda>t. inputs ! i ! t) (tours ! i)) [0..<length tours])
      = map (\<lambda>i. cycle_length (inputs ! i) (tours ! i) (length (tours ! i))) [0..<length tours]"
    using assms(2) by (simp add: fast_row_cycle)
  then show ?thesis using g ne by (simp add: stack_l_fast_def)
qed


subsection \<open>The batch size of the configuration\<close>


lemma find_match_take:
  "i < n \<Longrightarrow> find_match xy (take n test) i ks = find_match xy test i ks"
  by (induction ks) (auto simp: tensor_index2_take split: sum.splits)

lemma back_tours_cities_take:
  "i < n \<Longrightarrow> back_tours_cities e (take n tours) (take n sh) (take n test) i js st
     = back_tours_cities e tours sh test i js st"
proof (induction js arbitrary: st)
  case Nil
  then show ?case by simp
next
  case (Cons j js)
  obtain pt pts where st: "st = (pt, pts)" by (cases st)
  show ?case unfolding st
    using Cons by (simp add: tensor_index2_take find_match_take Let_def
        cong: sum.case_cong option.case_cong if_cong)
qed

lemma back_tours_batch_take:
  "\<forall>i\<in>set is. i < n \<Longrightarrow>
     back_tours_batch e (take n tours) (take n sh) (take n test) is pts
       = back_tours_batch e tours sh test is pts"
  by (induction "is" arbitrary: pts) (auto simp: back_tours_cities_take split: sum.splits)

lemma back_tours_take:
  "back_tours e (take (batch e) tours) (take (batch e) sh) (take (batch e) test)
     = back_tours e tours sh test"
  by (simp add: back_tours_def back_tours_batch_take)

lemma find_match_err: "find_match xy test i ks = Inl err \<Longrightarrow> err = IndexError"
  by (induction ks)
     (auto simp: tensor_index2_def tensor_index_def split: if_splits sum.splits)

lemma back_tours_cities_err:
  "back_tours_cities e tours sh test i js st = Inl err \<Longrightarrow> err = IndexError"
proof (induction js arbitrary: st)
  case Nil
  then show ?case by simp
next
  case (Cons j js)
  obtain pt pts where st: "st = (pt, pts)" by (cases st)
  show ?case using Cons.prems unfolding st
    by (auto simp: tensor_index2_def tensor_index_def torch_stack_def Let_def
             split: if_splits sum.splits option.splits
             dest: find_match_err Cons.IH)
qed

lemma back_tours_batch_err:
  "back_tours_batch e tours sh test is pts = Inl err \<Longrightarrow> err = IndexError"
  by (induction "is" arbitrary: pts)
     (auto split: sum.splits dest: back_tours_cities_err)

lemma back_tours_cities_short:
  assumes "\<not> i < length tours \<or> \<not> i < length sh \<or> \<not> i < length test" "0 < city_t e"
  shows "back_tours_cities e tours sh test i (j # js) st = Inl IndexError"
proof -
  obtain pt pts where st: "st = (pt, pts)" by (cases st)
  have u: "[0..<city_t e] = 0 # [1..<city_t e]" using assms(2) by (simp add: upt_conv_Cons)
  have "\<exists>err. back_tours_cities e tours sh test i (j # js) st = Inl err"
    unfolding st using assms(1)
    by (auto simp: u tensor_index2_def tensor_index_def split: sum.splits)
  then show ?thesis using back_tours_cities_err by blast
qed

lemma back_tours_batch_short:
  assumes "\<exists>i\<in>set is. \<not> i < length tours \<or> \<not> i < length sh \<or> \<not> i < length test"
    and "0 < city_t e"
  shows "back_tours_batch e tours sh test is pts = Inl IndexError"
  using assms(1)
proof (induction "is" arbitrary: pts)
  case Nil
  then show ?case by simp
next
  case (Cons i "is")
  have u: "[0..<city_t e] = 0 # [1..<city_t e]" using assms(2) by (simp add: upt_conv_Cons)
  show ?case
  proof (cases "back_tours_cities e tours sh test i [0..<city_t e] ([], pts)")
    case (Inl err)
    then have "err = IndexError" by (rule back_tours_cities_err)
    then show ?thesis using Inl by simp
  next
    case (Inr st')
    have "i < length tours \<and> i < length sh \<and> i < length test"
      using Inr back_tours_cities_short[OF _ assms(2), of i tours sh test 0 "[1..<city_t e]" "([], pts)"]
      unfolding u by auto
    then have "\<exists>i\<in>set is. \<not> i < length tours \<or> \<not> i < length sh \<or> \<not> i < length test"
      using Cons.prems by auto
    then have "back_tours_batch e tours sh test is (snd st') = Inl IndexError" by (rule Cons.IH)
    then show ?thesis using Inr by (cases st') simp
  qed
qed

lemma back_tours_short:
  assumes "length tours < batch e \<or> length sh < batch e \<or> length test < batch e"
    and "0 < city_t e"
  shows "back_tours e tours sh test = Inl IndexError"
proof -
  have "\<exists>i\<in>set [0..<batch e]. \<not> i < length tours \<or> \<not> i < length sh \<or> \<not> i < length test"
    using assms(1) by (metis atLeastLessThan_iff less_irrefl set_upt zero_le)
  from back_tours_batch_short[OF this assms(2)] show ?thesis by (simp add: back_tours_def)
qed

text \<open>
  C10. \<open>stack_l\<close> and \<open>back_tours\<close> loop over \<open>batch\<close> of the environment: their result on
  any input is their result on its first \<open>batch\<close> instances, a result of \<open>stack_l\<close> has
  \<open>batch\<close> entries while a result of \<open>stack_l_fast\<close> has as many entries as \<open>tours\<close>, and
  with fewer than \<open>batch\<close> instances both raise IndexError (for \<open>back_tours\<close> when
  \<open>city_t\<close> is positive, so that an instance is read at all).
\<close>

theorem batch_taken_from_configuration:
  "stack_l e inputs tours = stack_l e (take (batch e) inputs) (take (batch e) tours)
   \<and> back_tours e tours sh test
       = back_tours e (take (batch e) tours) (take (batch e) sh) (take (batch e) test)
   \<and> (\<forall>ls. stack_l e inputs tours = Inr ls \<longrightarrow> length ls = batch e)
   \<and> (\<forall>fs. stack_l_fast inputs tours = Inr fs \<longrightarrow> length fs = length tours)
   \<and> (length inputs < batch e \<or> length tours < batch e
         \<longrightarrow> stack_l e inputs tours = Inl IndexError)
   \<and> (0 < city_t e \<and> (length tours < batch e \<or> length sh < batch e \<or> length test < batch e)
         \<longrightarrow> back_tours e tours sh test = Inl IndexError)"
  using stack_l_take[of e inputs tours] back_tours_take[of e tours sh test]
    stack_l_length[of e inputs tours] stack_l_fast_length[of inputs tours]
    stack_l_short[of inputs e tours] back_tours_short[of tours e sh test]
  by simp

theorem batch_taken_from_configuration_witness:
  "stack_l \<lparr>batch = 1, city_t = 2\<rparr> [[(0, 0), (1, 0)], [(0, 0), (3, 4)]] [[0, 1], [1, 0]]
     = stack_l \<lparr>batch = 1, city_t = 2\<rparr> [[(0, 0), (1, 0)]] [[0, 1]]
   \<and> (\<exists>ls fs.
         stack_l \<lparr>batch = 1, city_t = 2\<rparr> [[(0, 0), (1, 0)], [(0, 0), (3, 4)]] [[0, 1], [1, 0]]
           = Inr ls
         \<and> stack_l_fast [[(0, 0), (1, 0)], [(0, 0), (3, 4)]] [[0, 1], [1, 0]] = Inr fs
         \<and> length ls = 1 \<and> length fs = 2)
   \<and> stack_l \<lparr>batch = 2, city_t = 2\<rparr> [[(0, 0), (1, 0)]] [[0, 1]] = Inl IndexError
   \<and> back_tours \<lparr>batch = 2, city_t = 2\<rparr> [[0, 1]] [[(0, 0), (1, 0)]] [[(0, 0), (1, 0)]]
       = Inl IndexError"
proof -
  define e1 where "e1 = \<lparr>batch = 1, city_t = 2\<rparr>"
  define e2 where "e2 = \<lparr>batch = 2, city_t = 2\<rparr>"
  define inputs :: "point list list" where "inputs = [[(0, 0), (1, 0)], [(0, 0), (3, 4)]]"
  define tours :: "nat list list" where "tours = [[0, 1], [1, 0]]"
  define inputs1 :: "point list list" where "inputs1 = [[(0, 0), (1, 0)]]"
  define tours1 :: "nat list list" where "tours1 = [[0, 1]]"
  have t1: "take (batch e1) inputs = inputs1" "take (batch e1) tours = tours1"
    by (simp_all add: e1_def inputs_def tours_def inputs1_def tours1_def)
  note more = batch_taken_from_configuration[of e1 inputs tours inputs1 inputs1]
  note fewer = batch_taken_from_configuration[of e2 inputs1 tours1 inputs1 inputs1]
  have "stack_l e1 inputs tours = stack_l e1 (take (batch e1) inputs) (take (batch e1) tours)"
    using more by blast
  then have a: "stack_l e1 inputs tours = stack_l e1 inputs1 tours1"
    unfolding t1 .
  have "\<forall>i<batch e1. i < length inputs \<and> i < length tours \<and> city_t e1 \<le> length (tours ! i)
             \<and> (\<forall>j<city_t e1. tours ! i ! j < length (inputs ! i))"
    by (simp add: e1_def inputs_def tours_def less_Suc_eq numeral_2_eq_2 all_conj_distrib)
  then obtain ls where ls: "stack_l e1 inputs tours = Inr ls"
    using stack_l_ok[of e1 inputs tours] by (simp add: e1_def)
  have "\<forall>i<length tours. tours ! i \<noteq> [] \<and> (\<forall>t\<in>set (tours ! i). t < length (inputs ! i))"
    by (simp add: inputs_def tours_def less_Suc_eq numeral_2_eq_2 all_conj_distrib)
  then obtain fs where fs: "stack_l_fast inputs tours = Inr fs"
    using stack_l_fast_ok[of tours inputs] by (simp add: inputs_def tours_def)
  have "length ls = batch e1" "length fs = length tours"
    using more ls fs by blast+
  then have b: "length ls = 1" "length fs = 2"
    by (simp_all add: e1_def tours_def)
  have lt: "length inputs1 < batch e2 \<or> length tours1 < batch e2"
    by (simp add: e2_def inputs1_def)
  have c: "stack_l e2 inputs1 tours1 = Inl IndexError"
    using fewer lt by blast
  have lt': "0 < city_t e2
      \<and> (length tours1 < batch e2 \<or> length inputs1 < batch e2 \<or> length inputs1 < batch e2)"
    by (simp add: e2_def inputs1_def)
  have d: "back_tours e2 tours1 inputs1 inputs1 = Inl IndexError"
    using fewer lt' by blast
  show ?thesis
    using a ls fs b c d unfolding e1_def e2_def inputs_def tours_def inputs1_def tours1_def
    by blast
qed

subsection \<open>The exact solver: minima, combinations and path costs\<close>

lemma py_min_Min: "py_min (x # xs) = Inr (Min (set (x # xs)))"
proof -
  have "(\<lambda>y m. if y < m then y else m) = (min :: 'a \<Rightarrow> 'a \<Rightarrow> 'a)"
    by (intro ext) (auto simp: min_def)
  then have "py_min (x # xs) = Inr (fold min xs x)" by simp
  also have "fold min xs x = Min (set (x # xs))" by (rule Min.set_eq_fold[symmetric])
  finally show ?thesis .
qed

lemma py_min_in:
  assumes "cs \<noteq> []"
  shows "\<exists>v. py_min cs = Inr v \<and> v \<in> set cs \<and> (\<forall>c\<in>set cs. v \<le> c)"
proof -
  obtain x xs where cs: "cs = x # xs" using assms by (cases cs) auto
  have "Min (set cs) \<in> set cs" using assms by (intro Min_in) auto
  moreover have "\<forall>c\<in>set cs. Min (set cs) \<le> c" by simp
  ultimately show ?thesis using py_min_Min[of x xs] unfolding cs by blast
qed

lemma fst_mono_lex: "(v :: real \<times> nat list) \<le> c \<Longrightarrow> fst v \<le> fst c"
  by (cases v, cases c) (auto simp: less_eq_prod_def)

lemma combinations_props:
  "C \<in> set (combinations xs m) \<Longrightarrow> length C = m \<and> set C \<subseteq> set xs \<and> (distinct xs \<longrightarrow> distinct C)"
  by (induction xs m arbitrary: C rule: combinations.induct) (auto, blast+)

lemma combinations_complete:
  "distinct xs \<Longrightarrow> S \<subseteq> set xs \<Longrightarrow> card S = m \<Longrightarrow> \<exists>C\<in>set (combinations xs m). set C = S"
proof (induction xs m arbitrary: S rule: combinations.induct)
  case (1 xs)
  then have "finite S" using finite_subset by blast
  then have "S = {}" using 1 by simp
  then show ?case by simp
next
  case (2 m)
  then show ?case by simp
next
  case (3 x xs m)
  have fin: "finite S" using 3(4) finite_subset by blast
  show ?case
  proof (cases "x \<in> S")
    case True
    have "S - {x} \<subseteq> set xs" using 3(4) by auto
    moreover have "card (S - {x}) = m" using True 3(5) fin by simp
    ultimately obtain C where "C \<in> set (combinations xs m)" "set C = S - {x}"
      using 3(1)[of "S - {x}"] 3(3) by auto
    then have "x # C \<in> set (combinations (x # xs) (Suc m))" "set (x # C) = S"
      using True by auto
    then show ?thesis by blast
  next
    case False
    then have "S \<subseteq> set xs" using 3(4) by auto
    then obtain C where "C \<in> set (combinations xs (Suc m))" "set C = S"
      using 3(2)[of S] 3(3,5) by auto
    then show ?thesis by auto
  qed
qed

lemma path_cost_append2: "path_cost f (p @ [a, b]) = path_cost f (p @ [a]) + f a b"
  by (induction f p rule: path_cost.induct) auto

lemma path_cost_Cons: "p \<noteq> [] \<Longrightarrow> path_cost f (x # p) = f x (hd p) + path_cost f p"
  by (cases p) auto

lemma tail_cost_single: "tail_cost D [j] = D ! j ! 0"
  by (simp add: tail_cost_def)

lemma tail_cost_Cons: "p \<noteq> [] \<Longrightarrow> tail_cost D (j # p) = D ! j ! (hd p) + tail_cost D p"
  by (cases p) (auto simp: tail_cost_def)

lemma path_cost_cong:
  "(\<And>a b. a \<in> set xs \<Longrightarrow> b \<in> set xs \<Longrightarrow> f a b = g a b) \<Longrightarrow> path_cost f xs = path_cost g xs"
  by (induction f xs rule: path_cost.induct) auto

lemma cyc_rotate1:
  assumes "p \<noteq> []"
  shows "path_cost f ((a # p) @ [hd (a # p)]) = path_cost f ((p @ [a]) @ [hd (p @ [a])])"
proof -
  have "path_cost f ((a # p) @ [hd (a # p)]) = f a (hd p) + path_cost f (p @ [a])"
    using path_cost_Cons[of "p @ [a]" f a] assms by simp
  moreover have "path_cost f ((p @ [a]) @ [hd (p @ [a])]) = path_cost f (p @ [a]) + f a (hd p)"
    using assms by (simp add: path_cost_append2)
  ultimately show ?thesis by simp
qed

lemma cyc_rotate:
  "path_cost f ((xs @ ys) @ [hd (xs @ ys)]) = path_cost f ((ys @ xs) @ [hd (ys @ xs)])"
proof (induction xs arbitrary: ys)
  case Nil
  then show ?case by simp
next
  case (Cons a xs)
  show ?case
  proof (cases "xs @ ys = []")
    case True
    then show ?thesis by simp
  next
    case False
    have "path_cost f (((a # xs) @ ys) @ [hd ((a # xs) @ ys)])
        = path_cost f (((xs @ ys) @ [a]) @ [hd ((xs @ ys) @ [a])])"
      using cyc_rotate1[OF False, of f a] by simp
    also have "\<dots> = path_cost f ((xs @ (ys @ [a])) @ [hd (xs @ (ys @ [a]))])" by simp
    also have "\<dots> = path_cost f (((ys @ [a]) @ xs) @ [hd ((ys @ [a]) @ xs)])"
      by (rule Cons.IH)
    finally show ?thesis by simp
  qed
qed

lemma path_cost_sum:
  "path_cost f xs = (\<Sum>i\<leftarrow>[0..<length xs - 1]. f (xs ! i) (xs ! Suc i))"
proof (induction f xs rule: path_cost.induct)
  case (3 f x y r)
  have "(\<Sum>i\<leftarrow>[0..<length (x # y # r) - 1]. f ((x # y # r) ! i) ((x # y # r) ! Suc i))
      = (\<Sum>i\<leftarrow>[0..<Suc (length r)]. f ((x # y # r) ! i) ((x # y # r) ! Suc i))" by simp
  also have "\<dots> = f x y + (\<Sum>i\<leftarrow>[0..<length r]. f ((y # r) ! i) ((y # r) ! Suc i))"
    by (simp add: map_upt_Suc del: upt_Suc)
  finally show ?case using 3 by simp
qed simp_all

lemma cycle_length_path_cost:
  assumes "tour \<noteq> []"
  shows "cycle_length nodes tour (length tour)
     = path_cost (\<lambda>a b. get_2city_distance (nodes ! a) (nodes ! b)) (tour @ [hd tour])"
proof -
  let ?g = "\<lambda>a b. get_2city_distance (nodes ! a) (nodes ! b)"
  let ?n = "length tour"
  have "path_cost ?g (tour @ [hd tour])
     = (\<Sum>i\<leftarrow>[0..<?n]. ?g ((tour @ [hd tour]) ! i) ((tour @ [hd tour]) ! Suc i))"
    by (simp add: path_cost_sum)
  also have "\<dots> = (\<Sum>i\<leftarrow>[0..<?n]. ?g (tour ! i) (tour ! ((i + 1) mod ?n)))"
  proof (rule arg_cong[where f = sum_list], rule map_cong[OF refl])
    fix i assume "i \<in> set [0..<?n]"
    then have i: "i < ?n" by simp
    have a: "(tour @ [hd tour]) ! i = tour ! i" using i by (simp add: nth_append)
    have b: "(tour @ [hd tour]) ! Suc i = tour ! ((i + 1) mod ?n)"
    proof (cases "Suc i < ?n")
      case True
      then show ?thesis by (simp add: nth_append)
    next
      case False
      then have "Suc i = ?n" using i by simp
      then show ?thesis using assms by (simp add: nth_append hd_conv_nth)
    qed
    show "?g ((tour @ [hd tour]) ! i) ((tour @ [hd tour]) ! Suc i)
        = ?g (tour ! i) (tour ! ((i + 1) mod ?n))"
      by (simp only: a b)
  qed
  finally show ?thesis by (simp add: cycle_length_def)
qed

subsection \<open>The exact solver: the table of every layer is optimal\<close>

lemma initial_table_ok: "layer_ok D (length D) 0 (initial_table D)"
proof -
  let ?n = "length D"
  have e: "opt_entry D ?n 0 x" if "x \<in> set (initial_table D)" for x
  proof -
    from that obtain idx where idx: "1 \<le> idx" "idx < ?n" "x = ((idx, {}), (D ! idx ! 0, [idx]))"
      by (auto simp: initial_table_def)
    show ?thesis unfolding idx(3) opt_entry_def using idx(1,2) by (simp add: tail_cost_single)
  qed
  have k: "(j, R) \<in> fst ` set (initial_table D)"
    if "1 \<le> j" "j < ?n" "R \<subseteq> {1..<?n} - {j}" "card R = 0" for j R
  proof -
    have "finite R" using that(3) finite_subset by blast
    then have "R = {}" using that(4) by simp
    then show ?thesis using that(1,2) by (force simp: initial_table_def)
  qed
  show ?thesis unfolding layer_ok_def using e k by blast
qed

lemma layer_lookup:
  assumes "layer_ok D n m A" "1 \<le> k" "k < n" "R' \<subseteq> {1..<n} - {k}" "card R' = m"
  shows "\<exists>c p. lookup A (k, R') = Inr (c, p) \<and> opt_entry D n m ((k, R'), (c, p))"
proof -
  have "(k, R') \<in> fst ` set A" using assms unfolding layer_ok_def by blast
  then obtain v where v: "map_of A (k, R') = Some v"
    by (metis map_of_eq_None_iff not_Some_eq)
  then have "((k, R'), v) \<in> set A" by (rule map_of_SomeD)
  then have "opt_entry D n m ((k, R'), v)" using assms(1) unfolding layer_ok_def by blast
  then show ?thesis using v by (cases v) (auto simp: lookup_def)
qed

lemma candidates_ok:
  assumes "layer_ok D n m A" "1 \<le> j" "j < n" "R \<subseteq> {1..<n} - {j}" "card R = Suc m"
    and "set ks \<subseteq> R"
  shows "\<exists>cs. candidates D A j R ks = Inr cs \<and> length cs = length ks
           \<and> (\<forall>v\<in>set cs. valid_path D j R v)
           \<and> (\<forall>k\<in>set ks. \<forall>q. distinct q \<and> set q = R - {k}
                 \<longrightarrow> (\<exists>v\<in>set cs. fst v \<le> tail_cost D (j # k # q)))"
  using assms(6)
proof (induction ks)
  case Nil
  then show ?case by simp
next
  case (Cons k ks)
  have finR: "finite R" using assms(4) finite_subset by blast
  have kR: "k \<in> R" using Cons.prems by simp
  then have k1: "1 \<le> k" "k < n" using assms(4) by auto
  have sub: "R - {k} \<subseteq> {1..<n} - {k}" using assms(4) by auto
  have card: "card (R - {k}) = m" using kR finR assms(5) by simp
  from layer_lookup[OF assms(1) k1 sub card]
  obtain c p where l: "lookup A (k, R - {k}) = Inr (c, p)"
    and o: "opt_entry D n m ((k, R - {k}), (c, p))" by blast
  from o have p: "hd p = k" "p \<noteq> []" "distinct p" "set p = insert k (R - {k})"
    "c = tail_cost D p"
    and best: "\<And>q. distinct q \<Longrightarrow> set q = R - {k} \<Longrightarrow> c \<le> tail_cost D (k # q)"
    unfolding opt_entry_def by auto
  have setp: "set p = R" using p(4) kR by auto
  have jR: "j \<notin> R" using assms(4) by auto
  from Cons.IH obtain cs where cs: "candidates D A j R ks = Inr cs" "length cs = length ks"
    "\<forall>v\<in>set cs. valid_path D j R v"
    "\<forall>k\<in>set ks. \<forall>q. distinct q \<and> set q = R - {k}
                 \<longrightarrow> (\<exists>v\<in>set cs. fst v \<le> tail_cost D (j # k # q))"
    using Cons.prems by auto
  let ?v = "(D ! j ! k + c, j # p)"
  have step: "candidates D A j R (k # ks) = Inr (?v # cs)" by (simp add: l cs(1))
  have vp: "valid_path D j R ?v"
    unfolding valid_path_def using p setp jR by (simp add: tail_cost_Cons)
  have cover: "\<exists>v\<in>set (?v # cs). fst v \<le> tail_cost D (j # k' # q)"
    if "k' \<in> set (k # ks)" "distinct q" "set q = R - {k'}" for k' q
  proof (cases "k' = k")
    case True
    have "tail_cost D (j # k # q) = D ! j ! k + tail_cost D (k # q)"
      by (simp add: tail_cost_Cons)
    moreover have "c \<le> tail_cost D (k # q)" using best that True by simp
    ultimately show ?thesis using True by simp
  next
    case False
    then have "k' \<in> set ks" using that(1) by simp
    then show ?thesis using cs(4) that(2,3) by auto
  qed
  show ?case using step cs(2,3) vp cover by auto
qed

lemma iterates_sorted: "iterates sorted_list_of_set"
  by (simp add: iterates_def)

lemma best_candidate:
  assumes "layer_ok D n m A" "1 \<le> j" "j < n" "R \<subseteq> {1..<n} - {j}" "card R = Suc m"
    and it: "iterates it"
  shows "\<exists>cs v. candidates D A j R (it R) = Inr cs \<and> py_min cs = Inr v
           \<and> opt_entry D n (Suc m) ((j, R), v)"
proof -
  have finR: "finite R" using assms(4) finite_subset by blast
  have sk: "set (it R) = R" and dk: "distinct (it R)"
    using finR it unfolding iterates_def by auto
  from candidates_ok[OF assms(1-5), of "it R"] sk
  obtain cs where cs: "candidates D A j R (it R) = Inr cs"
    "length cs = length (it R)"
    "\<forall>v\<in>set cs. valid_path D j R v"
    "\<forall>k\<in>R. \<forall>q. distinct q \<and> set q = R - {k}
                 \<longrightarrow> (\<exists>v\<in>set cs. fst v \<le> tail_cost D (j # k # q))"
    by auto
  have "R \<noteq> {}" using assms(5) by auto
  have "length (it R) = card R" using sk dk distinct_card by fastforce
  then have "length cs \<noteq> 0" unfolding cs(2) using assms(5) by simp
  then have "cs \<noteq> []" by simp
  from py_min_in[OF this] obtain v where v: "py_min cs = Inr v" "v \<in> set cs"
    "\<forall>c\<in>set cs. v \<le> c" by blast
  have vp: "valid_path D j R v" using cs(3) v(2) by blast
  have best: "fst v \<le> tail_cost D (j # q)" if "distinct q" "set q = R" for q
  proof -
    have "q \<noteq> []" using that(2) \<open>R \<noteq> {}\<close> by auto
    then obtain k q' where q: "q = k # q'" by (cases q) auto
    have "k \<in> R" "distinct q'" "set q' = R - {k}" using that unfolding q by auto
    then obtain w where w: "w \<in> set cs" "fst w \<le> tail_cost D (j # k # q')"
      using cs(4) by blast
    have "fst v \<le> fst w" using v(3) w(1) fst_mono_lex by blast
    then show ?thesis using w(2) unfolding q by simp
  qed
  have "opt_entry D n (Suc m) ((j, R), v)"
    using vp best assms(2-5) unfolding opt_entry_def valid_path_def by (cases v) auto
  then show ?thesis using cs(1) v(1) by blast
qed

lemma set_update_subset: "set (AList.update k v al) \<subseteq> insert (k, v) (set al)"
  by (induction al) auto

lemma keys_update: "fst ` set (AList.update k v al) = insert k (fst ` set al)"
  using AList.dom_update[of k v al] by (simp add: dom_map_of_conv_image_fst)

lemma layer_row_ok:
  assumes "layer_ok D n m A" "S \<subseteq> {1..<n}" "card S = Suc (Suc m)"
    and "set js \<subseteq> S" "\<forall>x\<in>set B. opt_entry D n (Suc m) x"
    and it: "iterates it"
  shows "\<exists>B'. layer_row it D A S js B = Inr B' \<and> (\<forall>x\<in>set B'. opt_entry D n (Suc m) x)
           \<and> fst ` set B' = fst ` set B \<union> (\<lambda>j. (j, S - {j})) ` set js"
  using assms(4,5)
proof (induction js arbitrary: B)
  case Nil
  then show ?case by simp
next
  case (Cons j js)
  have finS: "finite S" using assms(2) finite_subset by blast
  have jS: "j \<in> S" using Cons.prems by simp
  have j1: "1 \<le> j" "j < n" using jS assms(2) by auto
  have sub: "S - {j} \<subseteq> {1..<n} - {j}" using assms(2) by auto
  have card: "card (S - {j}) = Suc m" using jS finS assms(3) by simp
  from best_candidate[OF assms(1) j1 sub card it]
  obtain cs v where cs: "candidates D A j (S - {j}) (it (S - {j})) = Inr cs"
    "py_min cs = Inr v" "opt_entry D n (Suc m) ((j, S - {j}), v)" by blast
  let ?B = "AList.update (j, S - {j}) v B"
  have step: "layer_row it D A S (j # js) B = layer_row it D A S js ?B"
    by (simp add: cs(1,2) Let_def)
  have "\<forall>x\<in>set ?B. opt_entry D n (Suc m) x"
    using set_update_subset[of "(j, S - {j})" v B] cs(3) Cons.prems(2) by blast
  then obtain B' where B': "layer_row it D A S js ?B = Inr B'"
    "\<forall>x\<in>set B'. opt_entry D n (Suc m) x"
    "fst ` set B' = fst ` set ?B \<union> (\<lambda>j. (j, S - {j})) ` set js"
    using Cons.IH[of ?B] Cons.prems(1) by auto
  have "fst ` set B' = fst ` set B \<union> (\<lambda>j. (j, S - {j})) ` set (j # js)"
    unfolding B'(3) keys_update by auto
  then show ?case using step B'(1,2) by simp
qed

lemma layer_sets_ok:
  assumes "layer_ok D n m A"
    and "\<forall>C\<in>set Cs. set C \<subseteq> {1..<n} \<and> card (set C) = Suc (Suc m)"
    and "\<forall>x\<in>set B. opt_entry D n (Suc m) x"
    and it: "iterates it"
  shows "\<exists>B'. layer_sets it D A Cs B = Inr B' \<and> (\<forall>x\<in>set B'. opt_entry D n (Suc m) x)
           \<and> fst ` set B' = fst ` set B \<union> (\<Union>C\<in>set Cs. (\<lambda>j. (j, set C - {j})) ` set C)"
  using assms(2,3)
proof (induction Cs arbitrary: B)
  case Nil
  then show ?case by simp
next
  case (Cons C Cs)
  have C: "set C \<subseteq> {1..<n}" "card (set C) = Suc (Suc m)" using Cons.prems(1) by auto
  have sC: "set (it (set C)) = set C" using it unfolding iterates_def by simp
  then have js: "set (it (set C)) \<subseteq> set C" by simp
  from layer_row_ok[OF assms(1) C js Cons.prems(2) it]
  obtain B1 where B1: "layer_row it D A (set C) (it (set C)) B = Inr B1"
    "\<forall>x\<in>set B1. opt_entry D n (Suc m) x"
    "fst ` set B1 = fst ` set B \<union> (\<lambda>j. (j, set C - {j})) ` set (it (set C))"
    by blast
  have step: "layer_sets it D A (C # Cs) B = layer_sets it D A Cs B1"
    by (simp add: B1(1) Let_def)
  obtain B' where B': "layer_sets it D A Cs B1 = Inr B'"
    "\<forall>x\<in>set B'. opt_entry D n (Suc m) x"
    "fst ` set B' = fst ` set B1 \<union> (\<Union>C\<in>set Cs. (\<lambda>j. (j, set C - {j})) ` set C)"
    using Cons.IH[OF _ B1(2)] Cons.prems(1) by auto
  have "fst ` set B' = fst ` set B \<union> (\<Union>C\<in>set (C # Cs). (\<lambda>j. (j, set C - {j})) ` set C)"
    unfolding B'(3) B1(3) sC by auto
  then show ?case using step B'(1,2) by simp
qed

lemma dp_layer_ok:
  assumes "layer_ok D n m A" "iterates it"
  shows "\<exists>B. layer_sets it D A (combinations [1..<n] (Suc (Suc m))) [] = Inr B
           \<and> layer_ok D n (Suc m) B"
proof -
  let ?Cs = "combinations [1..<n] (Suc (Suc m))"
  have Cs: "\<forall>C\<in>set ?Cs. set C \<subseteq> {1..<n} \<and> card (set C) = Suc (Suc m)"
  proof
    fix C assume "C \<in> set ?Cs"
    from combinations_props[OF this]
    have "length C = Suc (Suc m)" "set C \<subseteq> set [1..<n]" "distinct C" by auto
    then show "set C \<subseteq> {1..<n} \<and> card (set C) = Suc (Suc m)"
      by (simp add: distinct_card)
  qed
  from layer_sets_ok[OF assms(1) Cs _ assms(2), of "[]"]
  obtain B where B: "layer_sets it D A ?Cs [] = Inr B" "\<forall>x\<in>set B. opt_entry D n (Suc m) x"
    "fst ` set B = (\<Union>C\<in>set ?Cs. (\<lambda>j. (j, set C - {j})) ` set C)"
    by auto
  have keys: "(j, R) \<in> fst ` set B"
    if "1 \<le> j" "j < n" "R \<subseteq> {1..<n} - {j}" "card R = Suc m" for j R
  proof -
    have finR: "finite R" using that(3) finite_subset by blast
    have jR: "j \<notin> R" using that(3) by auto
    have "insert j R \<subseteq> set [1..<n]" using that(1,2,3) by auto
    moreover have "card (insert j R) = Suc (Suc m)" using finR jR that(4) by simp
    ultimately obtain C where C: "C \<in> set ?Cs" "set C = insert j R"
      using combinations_complete[of "[1..<n]" "insert j R" "Suc (Suc m)"] by auto
    have "(j, set C - {j}) = (j, R)" using C(2) jR by auto
    moreover have "j \<in> set C" using C(2) by simp
    ultimately show ?thesis unfolding B(3) using C(1) by force
  qed
  show ?thesis using B(1,2) keys unfolding layer_ok_def by blast
qed

lemma dp_layers_ok:
  assumes "layer_ok D n m A" "iterates it"
  shows "\<exists>A'. dp_layers it D n [Suc (Suc m)..<Suc (Suc m) + k] A = Inr A'
           \<and> layer_ok D n (m + k) A'"
  using assms(1)
proof (induction k arbitrary: m A)
  case 0
  then show ?case by simp
next
  case (Suc k)
  from dp_layer_ok[OF Suc.prems assms(2)] obtain B where
    B: "layer_sets it D A (combinations [1..<n] (Suc (Suc m))) [] = Inr B" "layer_ok D n (Suc m) B"
    by blast
  from Suc.IH[OF B(2)] obtain A' where
    A': "dp_layers it D n [Suc (Suc (Suc m))..<Suc (Suc (Suc m)) + k] B = Inr A'"
    "layer_ok D n (Suc m + k) A'" by blast
  have "[Suc (Suc m)..<Suc (Suc m) + Suc k]
      = Suc (Suc m) # [Suc (Suc (Suc m))..<Suc (Suc (Suc m)) + k]"
    by (simp add: upt_conv_Cons)
  then have "dp_layers it D n [Suc (Suc m)..<Suc (Suc m) + Suc k] A = Inr A'"
    using B(1) A'(1) by simp
  then show ?case using A'(2) by auto
qed

subsection \<open>The exact solver: the returned tour is minimal\<close>

lemma all_distances_nth:
  "a < length nodes \<Longrightarrow> b < length nodes \<Longrightarrow>
     all_distances nodes ! a ! b = get_2city_distance (nodes ! a) (nodes ! b)"
  by (simp add: all_distances_def)

lemma optimal_res_ok:
  assumes "2 \<le> length nodes" "iterates it"
  shows "\<exists>c p. optimal_res it nodes = Inr (c, 0 # p) \<and> distinct p \<and> set p = {1..<length nodes}
           \<and> c = tail_cost (all_distances nodes) (0 # p)
           \<and> (\<forall>q. distinct q \<and> set q = {1..<length nodes}
                  \<longrightarrow> c \<le> tail_cost (all_distances nodes) (0 # q))"
proof -
  define D where "D = all_distances nodes"
  define n where "n = length nodes"
  have lenD: "length D = n" by (simp add: D_def n_def all_distances_def)
  have n2: "2 \<le> n" using assms(1) by (simp add: n_def)
  have ne: "nodes \<noteq> []" using assms(1) by (cases nodes) auto
  have base: "layer_ok D n 0 (initial_table D)" using initial_table_ok[of D] lenD by simp
  have "Suc (Suc 0) + (n - 2) = n" using n2 by simp
  then have "[2..<n] = [Suc (Suc 0)..<Suc (Suc 0) + (n - 2)]"
    by (simp only: numeral_2_eq_2)
  with dp_layers_ok[OF base assms(2), of "n - 2"]
  obtain A' where A': "dp_layers it D n [2..<n] (initial_table D) = Inr A'"
    "layer_ok D n (n - 2) A'" by auto
  let ?f = "\<lambda>((node, _), (dst, sq)). (D ! 0 ! node + dst, 0 # sq)"
  let ?cs = "map ?f A'"
  have res: "optimal_res it nodes = py_min ?cs"
    using ne A'(1) by (simp add: optimal_res_def Let_def D_def[symmetric] lenD)
  have ent: "opt_entry D n (n - 2) x" if "x \<in> set A'" for x
    using A'(2) that unfolding layer_ok_def by blast
  have full: "R = {1..<n} - {j}" if "R \<subseteq> {1..<n} - {j}" "card R = n - 2" "1 \<le> j" "j < n" for R j
  proof -
    have "card ({1..<n} - {j}) = n - 2" using that(3,4) by simp
    then show ?thesis using that(1,2) by (intro card_subset_eq) auto
  qed
  have key1: "(1, {1..<n} - {1}) \<in> fst ` set A'"
    using A'(2) n2 unfolding layer_ok_def by force
  then have "?cs \<noteq> []" by auto
  from py_min_in[OF this] obtain v where v: "py_min ?cs = Inr v" "v \<in> set ?cs"
    "\<forall>c\<in>set ?cs. v \<le> c" by blast
  from v(2) obtain j R c p where x: "((j, R), (c, p)) \<in> set A'" "v = (D ! 0 ! j + c, 0 # p)"
    by auto
  from ent[OF x(1)] have e: "1 \<le> j" "j < n" "R \<subseteq> {1..<n} - {j}" "card R = n - 2"
    "hd p = j" "p \<noteq> []" "distinct p" "set p = insert j R" "c = tail_cost D p"
    unfolding opt_entry_def by auto
  have R: "R = {1..<n} - {j}" using full e(1-4) by blast
  have setp: "set p = {1..<n}" using e(8) R e(1,2) by auto
  have cost: "D ! 0 ! j + c = tail_cost D (0 # p)"
    using e(5,6,9) by (simp add: tail_cost_Cons)
  have best: "D ! 0 ! j + c \<le> tail_cost D (0 # q)" if "distinct q" "set q = {1..<n}" for q
  proof -
    have "q \<noteq> []" using that(2) n2 by auto
    then obtain j' q' where q: "q = j' # q'" by (cases q) auto
    have j': "1 \<le> j'" "j' < n" "distinct q'" "set q' = {1..<n} - {j'}"
      using that unfolding q by auto
    have "card ({1..<n} - {j'}) = n - 2" using j'(1,2) by simp
    then have "(j', {1..<n} - {j'}) \<in> fst ` set A'"
      using A'(2) j'(1,2) unfolding layer_ok_def by blast
    then obtain c' p' where y: "((j', {1..<n} - {j'}), (c', p')) \<in> set A'" by force
    from ent[OF y] have "c' \<le> tail_cost D (j' # q')"
      using j'(3,4) unfolding opt_entry_def by auto
    moreover have "(D ! 0 ! j' + c', 0 # p') \<in> set ?cs"
      using y by force
    then have "v \<le> (D ! 0 ! j' + c', 0 # p')" using v(3) by blast
    then have "fst v \<le> fst (D ! 0 ! j' + c', 0 # p')" by (rule fst_mono_lex)
    then have "D ! 0 ! j + c \<le> D ! 0 ! j' + c'" unfolding x(2) by simp
    moreover have "tail_cost D (0 # q) = D ! 0 ! j' + tail_cost D (j' # q')"
      unfolding q by (simp add: tail_cost_Cons)
    ultimately show ?thesis by simp
  qed
  have 1: "optimal_res it nodes = Inr (D ! 0 ! j + c, 0 # p)" using res v(1) x(2) by simp
  have 2: "\<forall>q. distinct q \<and> set q = {1..<n} \<longrightarrow> D ! 0 ! j + c \<le> tail_cost D (0 # q)"
    using best by blast
  show ?thesis
    using 1 e(7) setp cost 2 unfolding D_def n_def by blast
qed

lemma tail_cost_cycle:
  assumes "set (0 # p) \<subseteq> {0..<length nodes}"
  shows "tail_cost (all_distances nodes) (0 # p)
     = path_cost (\<lambda>a b. get_2city_distance (nodes ! a) (nodes ! b)) ((0 # p) @ [hd (0 # p)])"
proof -
  have "path_cost (\<lambda>a b. all_distances nodes ! a ! b) ((0 # p) @ [0])
      = path_cost (\<lambda>a b. get_2city_distance (nodes ! a) (nodes ! b)) ((0 # p) @ [0])"
    using assms by (intro path_cost_cong) (auto simp: all_distances_nth subset_iff)
  then show ?thesis by (simp add: tail_cost_def)
qed

lemma get_tour_distance_perm:
  assumes "permutation_of (length nodes) t" "city_t e = length nodes" "0 < length nodes"
  shows "get_tour_distance e nodes t
     = Inr (path_cost (\<lambda>a b. get_2city_distance (nodes ! a) (nodes ! b)) (t @ [hd t]))"
proof -
  have len: "length t = length nodes" using assms(1) by (rule permutation_of_length)
  have nth: "\<forall>i<city_t e. t ! i < length nodes"
    using assms(1,2) permutation_of_nth by auto
  have "get_tour_distance e nodes t = Inr (cycle_length nodes t (city_t e))"
    using len nth assms(2) by (intro get_tour_distance_ok) auto
  moreover have "t \<noteq> []" using len assms(3) by auto
  ultimately show ?thesis using cycle_length_path_cost[of t nodes] len assms(2) by simp
qed

lemma optimal_res_minimal:
  assumes "2 \<le> length nodes" "city_t e = length nodes" "iterates it"
  shows "\<exists>c tour. optimal_res it nodes = Inr (c, tour) \<and> get_optimal_tour it nodes = Inr tour
           \<and> hd tour = 0
           \<and> permutation_of (length nodes) tour
           \<and> get_tour_distance e nodes tour = Inr c
           \<and> (\<forall>t. permutation_of (length nodes) t
                 \<longrightarrow> (\<exists>c'. get_tour_distance e nodes t = Inr c' \<and> c \<le> c'))"
proof -
  let ?n = "length nodes"
  let ?g = "\<lambda>a b. get_2city_distance (nodes ! a) (nodes ! b)"
  let ?D = "all_distances nodes"
  have n0: "0 < ?n" using assms(1) by linarith
  from optimal_res_ok[OF assms(1,3)] obtain c p where
    r: "optimal_res it nodes = Inr (c, 0 # p)" "distinct p" "set p = {1..<?n}"
    "c = tail_cost ?D (0 # p)"
    and best: "\<And>q. distinct q \<Longrightarrow> set q = {1..<?n} \<Longrightarrow> c \<le> tail_cost ?D (0 # q)"
    by blast
  have perm: "permutation_of ?n (0 # p)"
    unfolding permutation_of_def using r(2,3) n0 by auto
  have tour: "get_optimal_tour it nodes = Inr (0 # p)" by (simp add: get_optimal_tour_def r(1))
  have "set (0 # p) \<subseteq> {0..<?n}" using r(3) n0 by auto
  then have c: "c = path_cost ?g ((0 # p) @ [hd (0 # p)])"
    using r(4) tail_cost_cycle by simp
  have cost: "get_tour_distance e nodes (0 # p) = Inr c"
    using get_tour_distance_perm[OF perm assms(2) n0] c by simp
  have opt: "\<exists>c'. get_tour_distance e nodes t = Inr c' \<and> c \<le> c'"
    if t: "permutation_of ?n t" for t
  proof -
    have d: "distinct t" "set t = {0..<?n}" using t by (auto simp: permutation_of_def)
    then have "0 \<in> set t" using n0 by simp
    then obtain xs ys where s: "t = xs @ 0 # ys" by (meson split_list)
    define q where "q = ys @ xs"
    have "set q = set t - {0}" using d(1) unfolding s q_def by auto
    also have "\<dots> = {0..<?n} - {0}" by (simp only: d(2))
    also have "\<dots> = {1..<?n}" by (simp add: set_eq_iff) linarith
    finally have "set q = {1..<?n}" .
    moreover have "distinct q" using d(1) unfolding s q_def by auto
    ultimately have q: "distinct q" "set q = {1..<?n}" by simp_all
    have "set (0 # q) \<subseteq> {0..<?n}" using q(2) n0 by auto
    then have "tail_cost ?D (0 # q) = path_cost ?g ((0 # q) @ [hd (0 # q)])"
      by (rule tail_cost_cycle)
    also have "\<dots> = path_cost ?g (((0 # ys) @ xs) @ [hd ((0 # ys) @ xs)])"
      by (simp add: q_def)
    also have "\<dots> = path_cost ?g ((xs @ (0 # ys)) @ [hd (xs @ (0 # ys))])"
      by (rule cyc_rotate)
    finally have "tail_cost ?D (0 # q) = path_cost ?g (t @ [hd t])" by (simp add: s)
    then have "c \<le> path_cost ?g (t @ [hd t])" using best[OF q] by simp
    then show ?thesis using get_tour_distance_perm[OF t assms(2) n0] by simp
  qed
  have opt': "\<forall>t. permutation_of ?n t
                 \<longrightarrow> (\<exists>c'. get_tour_distance e nodes t = Inr c' \<and> c \<le> c')"
    using opt by simp
  have h: "hd (0 # p) = 0" by simp
  show ?thesis
    using r(1) tour h perm cost opt' by (intro exI[of _ c] exI[of _ "0 # p"] conjI)
qed



subsection \<open>The exact solver on the four cities of the main block\<close>

lemma sqrt_sq: "0 \<le> x \<Longrightarrow> sqrt (x * x) = (x::real)"
  by (simp add: real_sqrt_mult_self)

lemma sqrt16: "sqrt 16 = 4" using sqrt_sq[of 4] by simp
lemma sqrt9: "sqrt 9 = 3" using sqrt_sq[of 3] by simp
lemma sqrt25: "sqrt 25 = 5" using sqrt_sq[of 5] by simp

lemma sqrt10_gt3: "3 < sqrt 10"
proof -
  have "sqrt 9 < sqrt 10" by (simp only: real_sqrt_less_iff)
  then show ?thesis by (simp only: sqrt9)
qed

lemma all_distances_test_input:
  "all_distances test_input =
     [[0, 1, 4, 3], [1, 0, 3, sqrt 10], [4, 3, 0, 5], [3, sqrt 10, 5, 0]]"
  by (simp add: all_distances_def test_input_def get_2city_distance_def sqrt16 sqrt9 sqrt25)

lemma sls1: "sorted_list_of_set {a::nat} = [a]" by simp
lemma sls2: "a < b \<Longrightarrow> sorted_list_of_set {a::nat, b} = [a, b]"
  using sorted_list_of_set_sort_remdups[of "[a, b]"] by simp
lemma sls3: "a < b \<Longrightarrow> b < c \<Longrightarrow> sorted_list_of_set {a::nat, b, c} = [a, b, c]"
  using sorted_list_of_set_sort_remdups[of "[a, b, c]"] by simp

lemma layer2:
  assumes "3 < s"
  shows "layer_sets sorted_list_of_set [[0, 1, 4, 3], [1, 0, 3, s], [4, 3, 0, 5], [3, s, 5, 0]]
           (initial_table [[0, 1, 4, 3], [1, 0, 3, s], [4, 3, 0, 5], [3, s, 5, 0]])
           (combinations [1..<4] 2) []
     = Inr [((1, {2}), (7, [1, 2])), ((2, {1}), (4, [2, 1])),
            ((1, {3}), (s + 3, [1, 3])), ((3, {1}), (s + 1, [3, 1])),
            ((2, {3}), (8, [2, 3])), ((3, {2}), (9, [3, 2]))]"
proof -
  have c: "combinations [1..<4] 2 = [[1, 2], [1, 3], [2, 3]]" by code_simp
  have i: "initial_table [[0, 1, 4, 3], [1, 0, 3, s], [4, 3, 0, 5], [3, s, 5, 0]]
     = [((1, {}), (1, [1])), ((2, {}), (4, [2])), ((3, {}), (3, [3]))]"
    by (simp add: initial_table_def upt_conv_Cons)
  show ?thesis unfolding c i
    by (simp add: Let_def sls2 lookup_def insert_Diff_if add.commute)
qed

lemma layer3:
  assumes "3 < s"
  shows "layer_sets sorted_list_of_set [[0, 1, 4, 3], [1, 0, 3, s], [4, 3, 0, 5], [3, s, 5, 0]]
           [((1, {2}), (7, [1, 2])), ((2, {1}), (4, [2, 1])),
            ((1, {3}), (s + 3, [1, 3])), ((3, {1}), (s + 1, [3, 1])),
            ((2, {3}), (8, [2, 3])), ((3, {2}), (9, [3, 2]))]
           (combinations [1..<4] 3) []
     = Inr [((1, {2, 3}), (11, [1, 2, 3])), ((2, {1, 3}), (s + 6, [2, 1, 3])),
            ((3, {1, 2}), (9, [3, 2, 1]))]"
proof -
  have c: "combinations [1..<4] 3 = [[1, 2, 3]]" by code_simp
  show ?thesis unfolding c using assms
    by (simp add: Let_def sls2 sls3 lookup_def insert_Diff_if add.commute less_prod_def)
qed

lemma optimal_res_param:
  assumes "3 < s" "all_distances points = [[0, 1, 4, 3], [1, 0, 3, s], [4, 3, 0, 5], [3, s, 5, 0]]"
    "points \<noteq> []"
  shows "optimal_res sorted_list_of_set points = Inr (12, [0, 1, 2, 3])"
proof -
  define D where "D = [[0, 1, 4, 3], [1, 0, 3, s], [4, 3, 0, 5], [3, s, 5, 0]]"
  define T :: table where "T = [((1, {2, 3}), (11, [1, 2, 3])), ((2, {1, 3}), (s + 6, [2, 1, 3])),
            ((3, {1, 2}), (9, [3, 2, 1]))]"
  have u: "[2..<4] = [2, 3]" by code_simp
  have l: "length D = 4" by (simp add: D_def)
  have d: "dp_layers sorted_list_of_set D 4 [2, 3] (initial_table D) = Inr T"
    unfolding D_def T_def
    by (simp only: dp_layers.simps layer2[OF assms(1)] layer3[OF assms(1)] sum.case)
  have r: "optimal_res sorted_list_of_set points =
     py_min (map (\<lambda>((node, _), (dst, sq)). (D ! 0 ! node + dst, 0 # sq)) T)"
    unfolding optimal_res_def Let_def assms(2) D_def[symmetric] l u d using assms(3) by simp
  have m: "py_min (map (\<lambda>((node, _), (dst, sq)). (D ! 0 ! node + dst, 0 # sq)) T)
      = Inr (12, [0, 1, 2, 3])"
    unfolding T_def D_def using assms(1) by (simp add: less_prod_def)
  show ?thesis unfolding r m ..
qed

lemma tour_length_test_input:
  assumes "a < 4" "b < 4" "c < 4" "d < 4"
  shows "get_tour_distance test_env test_input [a, b, c, d]
     = Inr (all_distances test_input ! a ! b + all_distances test_input ! b ! c
          + all_distances test_input ! c ! d + all_distances test_input ! d ! a)"
proof -
  have len: "length test_input = 4" by (simp add: test_input_def)
  have "list_all (\<lambda>x. x < 4) [a, b, c, d]" using assms by simp
  then have "\<forall>i<length [a, b, c, d]. [a, b, c, d] ! i < 4" by (simp only: list_all_length)
  then have "\<forall>i<city_t test_env. [a, b, c, d] ! i < length test_input"
    by (simp add: test_env_def len)
  moreover have "city_t test_env \<le> length [a, b, c, d]" by (simp add: test_env_def)
  ultimately have g: "get_tour_distance test_env test_input [a, b, c, d]
      = Inr (cycle_length test_input [a, b, c, d] (city_t test_env))"
    by (intro get_tour_distance_ok)
  have u: "[0..<4] = [0, 1, 2, 3]" by code_simp
  have cl: "cycle_length test_input [a, b, c, d] 4
     = get_2city_distance (test_input ! a) (test_input ! b)
       + get_2city_distance (test_input ! b) (test_input ! c)
       + get_2city_distance (test_input ! c) (test_input ! d)
       + get_2city_distance (test_input ! d) (test_input ! a)"
    unfolding cycle_length_def u by simp
  have ad: "all_distances test_input ! x ! y
      = get_2city_distance (test_input ! x) (test_input ! y)" if "x < 4" "y < 4" for x y
    using that by (intro all_distances_nth) (simp_all add: len)
  have ct: "city_t test_env = 4" by (simp add: test_env_def)
  show ?thesis unfolding g ct cl using assms by (simp only: ad)
qed

lemma perms4:
  assumes "permutation_of 4 t" "hd t = 0"
  shows "t \<in> {[0, 1, 2, 3], [0, 1, 3, 2], [0, 2, 1, 3], [0, 2, 3, 1], [0, 3, 1, 2], [0, 3, 2, 1]}"
proof -
  have "length t = 4" using assms(1) by (rule permutation_of_length)
  then obtain a b c d where t: "t = [a, b, c, d]"
    by (auto simp: length_Suc_conv eval_nat_numeral)
  have a: "a = 0" using assms(2) t by simp
  have di: "distinct [0, b, c, d]" and st: "set t = {0..<4}"
    using assms(1) unfolding permutation_of_def t a by simp_all
  have "b \<in> set t" "c \<in> set t" "d \<in> set t" unfolding t by simp_all
  then have lt: "b < 4" "c < 4" "d < 4" unfolding st by simp_all
  have ne: "b \<noteq> 0" "c \<noteq> 0" "d \<noteq> 0" "b \<noteq> c" "b \<noteq> d" "c \<noteq> d" using di by auto
  have "b = 1 \<or> b = 2 \<or> b = 3" "c = 1 \<or> c = 2 \<or> c = 3" "d = 1 \<or> d = 2 \<or> d = 3"
    using lt ne(1-3) by linarith+
  then show ?thesis unfolding t a using ne(4-6) by auto
qed

lemma sqrt10_bounds: "31622 / 10000 < sqrt 10" "sqrt 10 < 31623 / 10000"
proof -
  show "31622 / 10000 < sqrt 10" by (rule real_less_rsqrt) (simp add: power2_eq_square)
  show "sqrt 10 < 31623 / 10000" by (rule real_less_lsqrt) (simp_all add: power2_eq_square)
qed

text \<open>
  C8. On the instance \<open>[(0,0), (1,0), (4,0), (0,-3)]\<close> the solver computes the distance 12
  and returns the tour \<open>[0, 1, 2, 3]\<close> when frozensets are iterated in ascending order, and
  the distance 12 with one of the tours \<open>[0, 1, 2, 3]\<close>, \<open>[0, 3, 2, 1]\<close> under any iteration
  order; these two tours have cyclic length 12, and every other tour that starts at city 0
  has cyclic length \<open>10 + sqrt 10\<close>, which is greater than 12 and is 13.1623 to four
  decimals.
\<close>

theorem exact_solver_four_cities:
  "optimal_res sorted_list_of_set test_input = Inr (12, [0, 1, 2, 3])
   \<and> get_optimal_tour sorted_list_of_set test_input = Inr [0, 1, 2, 3]
   \<and> (\<forall>it. iterates it \<longrightarrow>
         (\<exists>tour. optimal_res it test_input = Inr (12, tour)
            \<and> get_optimal_tour it test_input = Inr tour
            \<and> (tour = [0, 1, 2, 3] \<or> tour = [0, 3, 2, 1])))
   \<and> get_tour_distance test_env test_input [0, 1, 2, 3] = Inr 12
   \<and> get_tour_distance test_env test_input [0, 3, 2, 1] = Inr 12
   \<and> (\<forall>t. permutation_of 4 t \<and> hd t = 0 \<and> t \<noteq> [0, 1, 2, 3] \<and> t \<noteq> [0, 3, 2, 1]
          \<longrightarrow> get_tour_distance test_env test_input t = Inr (10 + sqrt 10))
   \<and> 12 < 10 + sqrt 10
   \<and> \<bar>10 + sqrt 10 - 131623 / 10000\<bar> < 1 / 10000"
proof -
  have ne: "test_input \<noteq> []" by (simp add: test_input_def)
  have r: "optimal_res sorted_list_of_set test_input = Inr (12, [0, 1, 2, 3])"
    by (rule optimal_res_param[OF sqrt10_gt3 all_distances_test_input ne])
  have t: "get_optimal_tour sorted_list_of_set test_input = Inr [0, 1, 2, 3]"
    by (simp add: get_optimal_tour_def r)
  have l1: "get_tour_distance test_env test_input [0, 1, 2, 3] = Inr 12"
    by (simp add: tour_length_test_input all_distances_test_input)
  have l2: "get_tour_distance test_env test_input [0, 3, 2, 1] = Inr 12"
    by (simp add: tour_length_test_input all_distances_test_input)
  have l3: "get_tour_distance test_env test_input [0, 1, 3, 2] = Inr (10 + sqrt 10)"
    by (simp add: tour_length_test_input all_distances_test_input)
  have l4: "get_tour_distance test_env test_input [0, 2, 1, 3] = Inr (10 + sqrt 10)"
    by (simp add: tour_length_test_input all_distances_test_input)
  have l5: "get_tour_distance test_env test_input [0, 2, 3, 1] = Inr (10 + sqrt 10)"
    by (simp add: tour_length_test_input all_distances_test_input)
  have l6: "get_tour_distance test_env test_input [0, 3, 1, 2] = Inr (10 + sqrt 10)"
    by (simp add: tour_length_test_input all_distances_test_input)
  have others: "get_tour_distance test_env test_input t = Inr (10 + sqrt 10)"
    if "permutation_of 4 t" "hd t = 0" "t \<noteq> [0, 1, 2, 3]" "t \<noteq> [0, 3, 2, 1]" for t
    using perms4[OF that(1,2)] that(3,4) l3 l4 l5 l6 by auto
  have g: "12 < 10 + sqrt 10" using sqrt10_gt3 by simp
  have a: "\<bar>10 + sqrt 10 - 131623 / 10000\<bar> < 1 / 10000"
    using sqrt10_bounds by (simp add: abs_less_iff)
  have len: "length test_input = 4" by (simp add: test_input_def)
  have p0: "permutation_of 4 [0, 1, 2, 3]"
  proof -
    have "{0..<4::nat} = {0, 1, 2, 3}" by auto
    then show ?thesis by (simp add: permutation_of_def)
  qed
  have any: "\<exists>tour. optimal_res it test_input = Inr (12, tour)
            \<and> get_optimal_tour it test_input = Inr tour
            \<and> (tour = [0, 1, 2, 3] \<or> tour = [0, 3, 2, 1])" if it: "iterates it" for it
  proof -
    have h1: "2 \<le> length test_input" by (simp add: len)
    have h2: "city_t test_env = length test_input" by (simp add: len test_env_def)
    from optimal_res_minimal[OF h1 h2 it] obtain c tour where
      o: "optimal_res it test_input = Inr (c, tour)" "get_optimal_tour it test_input = Inr tour"
      and hd: "hd tour = 0" and perm: "permutation_of 4 tour"
      and cost: "get_tour_distance test_env test_input tour = Inr c"
      and best: "\<forall>t. permutation_of 4 t
        \<longrightarrow> (\<exists>c'. get_tour_distance test_env test_input t = Inr c' \<and> c \<le> c')"
      unfolding len by blast
    from best p0 l1 have c12: "c \<le> 12" by auto
    have two: "tour = [0, 1, 2, 3] \<or> tour = [0, 3, 2, 1]"
    proof (rule ccontr)
      assume n: "\<not> (tour = [0, 1, 2, 3] \<or> tour = [0, 3, 2, 1])"
      then have "get_tour_distance test_env test_input tour = Inr (10 + sqrt 10)"
        using others[OF perm hd] by simp
      then have "c = 10 + sqrt 10" using cost by simp
      then show False using c12 g by simp
    qed
    then have "c = 12" using cost l1 l2 by auto
    then show ?thesis using o two by simp
  qed
  show ?thesis using r t any l1 l2 others g a by blast
qed

theorem exact_solver_four_cities_witness:
  "iterates sorted_list_of_set
   \<and> permutation_of 4 [0, 1, 3, 2] \<and> hd [0, 1, 3, 2 :: nat] = 0
   \<and> get_tour_distance test_env test_input [0, 1, 3, 2] = Inr (10 + sqrt 10)"
proof -
  have "{0..<4::nat} = {0, 1, 3, 2}" by auto
  then have p: "permutation_of 4 [0, 1, 3, 2]" by (simp add: permutation_of_def)
  then show ?thesis using exact_solver_four_cities iterates_sorted by simp
qed

text \<open>
  C9 (as amended). \<open>get_optimal_tour\<close> has no check of the number of cities. With fewer
  than two cities it returns no tour and fails with the error of the statement that
  breaks: without cities the slice of the empty distance array (IndexError), with one
  city, after the distance matrix \<open>[[0]]\<close> has been built and the recurrence loop has run
  over no layer, the final \<open>min\<close> of an empty sequence (ValueError).
\<close>

theorem get_optimal_tour_degenerate:
  assumes "length nodes < 2"
  shows "get_optimal_tour it nodes = Inl (if nodes = [] then IndexError else ValueError)
         \<and> (nodes \<noteq> [] \<longrightarrow> all_distances nodes = [[0]]
               \<and> dp_layers it (all_distances nodes) 1 [2..<1]
                     (initial_table (all_distances nodes)) = Inr [])"
proof (cases nodes)
  case Nil
  then show ?thesis by (simp add: get_optimal_tour_def optimal_res_def)
next
  case (Cons p ps)
  then have n: "nodes = [p]" using assms by simp
  have d: "all_distances nodes = [[0]]"
    unfolding n by (cases p) (simp add: all_distances_def get_2city_distance_def)
  show ?thesis unfolding d unfolding n
    by (simp add: get_optimal_tour_def optimal_res_def Let_def all_distances_def initial_table_def)
qed

theorem get_optimal_tour_degenerate_witness:
  "length [(5, 7) :: point] < 2
   \<and> get_optimal_tour sorted_list_of_set [(5, 7)] = Inl ValueError"
  using get_optimal_tour_degenerate[of "[(5, 7)]" sorted_list_of_set] by simp

text \<open>
  One city at the origin: the distance matrix is computed, and the call ends in the
  ValueError of \<open>min\<close>; no error is reported before the computation.
\<close>

theorem get_optimal_tour_single_city_counterexample:
  "all_distances [(0, 0)] = [[0]]
   \<and> dp_layers sorted_list_of_set [[0]] 1 [2..<1] (initial_table [[0]]) = Inr []
   \<and> optimal_res sorted_list_of_set [(0, 0)] = py_min []
   \<and> get_optimal_tour sorted_list_of_set [(0, 0)] = Inl ValueError"
  by (simp add: get_optimal_tour_def optimal_res_def Let_def all_distances_def
      initial_table_def get_2city_distance_def)

section \<open>Properties of the decoder\<close>

subsection \<open>Scores, argmax and log-softmax\<close>


lemma dot_scale: "dot v (map (\<lambda>x. c * f x) w) = c * dot v (map f w)"
proof (induction v arbitrary: w)
  case Nil
  then show ?case by (simp add: dot_def)
next
  case (Cons a v)
  show ?case
  proof (cases w)
    case Nil
    then show ?thesis by (simp add: dot_def)
  next
    case (Cons b w')
    have "dot (a # v) (map (\<lambda>x. c * f x) w) = a * (c * f b) + dot v (map (\<lambda>x. c * f x) w')"
      using Cons by (simp add: dot_def)
    also have "\<dots> = c * (a * f b + dot v (map f w'))"
      by (simp add: Cons.IH distrib_left)
    finally show ?thesis using Cons by (simp add: dot_def)
  qed
qed


lemma length_pointer:
  "length (pointer P query ref mask_v) = min (length ref) (length mask_v)"
  by (simp add: pointer_def Let_def)

lemma pointer_nth:
  assumes "i < length ref" "i < length mask_v"
  shows "pointer P query ref mask_v ! i =
     dot (Vec2 P) (map (\<lambda>x. clip_logits P * tanh x)
        (vadd (linear_apply (W_q2 P) query) (linear_apply (W_ref2 P) (ref ! i))))
     - inf_val * mask_v ! i"
  using assms by (simp add: pointer_def Let_def)






subsection \<open>Decoding without a repeated city\<close>
























subsection \<open>A run that repeats a city\<close>

lemma tanh_lower:
  assumes "0 \<le> (x::real)"
  shows "x / (1 + x) \<le> tanh x"
proof -
  define y where "y = exp (- 2 * x)"
  have y0: "0 < y" by (simp add: y_def)
  have "1 + 2 * x \<le> exp (2 * x)" using exp_ge_add_one_self[of "2 * x"] by simp
  then have "(1 + 2 * x) * y \<le> exp (2 * x) * y" using y0 by (intro mult_right_mono) auto
  also have "exp (2 * x) * y = 1" unfolding y_def by (simp flip: exp_add)
  finally have k: "(1 + 2 * x) * y \<le> 1" .
  have "x * (1 + y) \<le> (1 - y) * (1 + x)" using k by (simp add: algebra_simps)
  then have "x / (1 + x) \<le> (1 - y) / (1 + y)"
    using assms y0 by (simp add: field_simps)
  then show ?thesis unfolding y_def by (simp add: tanh_real_altdef)
qed

lemma tanh_one_ge_half: "1 / 2 \<le> tanh (1::real)"
  using tanh_lower[of 1] by simp








subsection \<open>The tour of the decoder\<close>










subsection \<open>The mask and the clip constant\<close>




text \<open>
  C4 (as amended). In \<open>pointer\<close> the clip constant multiplies the \<open>tanh\<close> of the sum of
  the projected query and the projected memory vector, after the \<open>tanh\<close> is applied: the
  score of city \<open>i\<close> is \<open>clip_logits * (Vec2 . tanh (W_q2 query + W_ref2 ref_i))\<close>, from
  which the mask penalty is subtracted.
\<close>

theorem pointer_clips_after_tanh:
  assumes "i < length ref" "i < length mask_v"
  shows "pointer P query ref mask_v ! i =
           clip_logits P * dot (Vec2 P)
              (map tanh (vadd (linear_apply (W_q2 P) query) (linear_apply (W_ref2 P) (ref ! i))))
             - inf_val * mask_v ! i
         \<and> length (pointer P query ref mask_v) = min (length ref) (length mask_v)"
  using pointer_nth[OF assms, of P query] by (simp add: dot_scale length_pointer)

lemma clip_pointer: "pointer clip_params [0] [[1]] [0] = [2 * tanh 1]"
  by (simp add: pointer_def Let_def clip_params_def overweight_params_def zero_linear_def
      linear_apply_def matvec_def vadd_def dot_def)

theorem pointer_clips_after_tanh_witness:
  "pointer clip_params [0] [[1]] [0] ! 0 = 2 * tanh 1"
proof -
  have "(0::nat) < length [[1::real]]" "(0::nat) < length [0::real]" by simp_all
  from pointer_clips_after_tanh[OF this, of clip_params "[0]"]
  show ?thesis
    by (simp add: clip_params_def overweight_params_def zero_linear_def
      linear_apply_def matvec_def vadd_def dot_def)
qed

text \<open>
  With the clip constant 2 and a pre-activation sum of 1 the code computes \<open>2 * tanh 1\<close>,
  which is at least 1; scaling before the \<open>tanh\<close> would give \<open>tanh 2\<close>, which is below 1.
\<close>

theorem pointer_clip_before_tanh_counterexample:
  "pointer clip_params [0] [[1]] [0] = [2 * tanh 1]
   \<and> pointer_spec clip_params [0] [[1]] [0] = [tanh 2]
   \<and> tanh 2 < 2 * tanh (1::real)"
proof -
  have s: "pointer_spec clip_params [0] [[1]] [0] = [tanh 2]"
    by (simp add: pointer_spec_def Let_def clip_params_def overweight_params_def zero_linear_def
      linear_apply_def matvec_def vadd_def dot_def)
  have "tanh 2 < (1::real)" by (rule tanh_real_lt_1)
  also have "1 \<le> 2 * tanh (1::real)" using tanh_one_ge_half by simp
  finally show ?thesis using clip_pointer s by simp
qed

end
